theory Spec2Isabelle
  imports Complex_Main "HOL-Library.Signed_Division"
begin

section \<open>Data model of \<^verbatim>\<open>src/main.cpp\<close>\<close>

text \<open>
  The planner works on \<^verbatim>\<open>cv::Point2f\<close> values and \<^verbatim>\<open>float\<close> costs.
  The embedding takes the exact-arithmetic reading of every \<^verbatim>\<open>float\<close>:
  a coordinate, a distance or a cost is a \<^typ>\<open>real\<close>, every arithmetic operation
  is the exact one, and the conversion \<^verbatim>\<open>float\<close> to \<^verbatim>\<open>int\<close> is truncation toward
  zero, as C++ defines it.  C++ \<^verbatim>\<open>int\<close> values are unbounded integers here: all
  values the program computes from a grid of 1 to 500 cells per side stay far
  below the 32-bit range.
\<close>

type_synonym point2f = "real \<times> real"

text \<open>
  \<^verbatim>\<open>struct Node { cv::Point2f point; int parent; float cost; }\<close>
\<close>

record node =
  point :: point2f
  parent :: int
  cost :: real

text \<open>
  The global variables of the program, passed explicitly.  \<open>start\<close> and \<open>goal\<close> are
  \<^verbatim>\<open>cv::Point\<close> values \<open>(x, y)\<close>, that is (column, row); an obstacle is a pair
  (row, column).  The image \<^verbatim>\<open>gridImg\<close> is only drawn on and is left out.
\<close>

record globals =
  gridSize :: int
  cellSize :: int
  start :: "int \<times> int"
  goal :: "int \<times> int"
  obstacles :: "(int \<times> int) set"
  undoStack :: "(int \<times> int) list"
  redoStack :: "(int \<times> int) list"
  selectingStart :: bool
  configured :: bool

definition canvasSize :: int where
  "canvasSize = 500"

subsection \<open>Arithmetic on points\<close>

definition p_add :: "point2f \<Rightarrow> point2f \<Rightarrow> point2f" where
  "p_add a b = (fst a + fst b, snd a + snd b)"

definition p_sub :: "point2f \<Rightarrow> point2f \<Rightarrow> point2f" where
  "p_sub a b = (fst a - fst b, snd a - snd b)"

definition p_scale :: "point2f \<Rightarrow> real \<Rightarrow> point2f" where
  "p_scale a t = (fst a * t, snd a * t)"

text \<open>
  \<^verbatim>\<open>cv::norm\<close> of a point, and \<^verbatim>\<open>dist(a, b) = cv::norm(a
  - b)\<close>.
\<close>

definition p_norm :: "point2f \<Rightarrow> real" where
  "p_norm a = sqrt (fst a * fst a + snd a * snd a)"

definition dist_pt :: "point2f \<Rightarrow> point2f \<Rightarrow> real" where
  "dist_pt a b = p_norm (p_sub a b)"

text \<open>
  The conversion of a \<^verbatim>\<open>float\<close> to \<^verbatim>\<open>int\<close>: the
  fractional part is discarded.
\<close>

definition float_to_int :: "real \<Rightarrow> int" where
  "float_to_int r = (if 0 \<le> r then \<lfloor>r\<rfloor> else \<lceil>r\<rceil>)"

text \<open>
  \<^verbatim>\<open>std::clamp(v, lo, hi)\<close> and \<^verbatim>\<open>clampToGrid\<close>.
\<close>

definition clamp :: "real \<Rightarrow> real \<Rightarrow> real \<Rightarrow> real" where
  "clamp v lo hi = (if v < lo then lo else if hi < v then hi else v)"

definition clampToGrid :: "point2f \<Rightarrow> point2f" where
  "clampToGrid pt =
     (clamp (fst pt) 0 (real_of_int (canvasSize - 1)),
      clamp (snd pt) 0 (real_of_int (canvasSize - 1)))"

subsection \<open>Occupancy queries\<close>

text \<open>
  \<^verbatim>\<open>int r = pt.y / cellSize, c = pt.x / cellSize;\<close> divides a \<^verbatim>\<open>float\<close> by the
  \<^verbatim>\<open>int\<close> cell size in floating point and converts the quotient to \<^verbatim>\<open>int\<close>.
  With a cell size of 0, which \<^verbatim>\<open>main\<close> computes for a grid size above 500, the quotient is
  infinite or not a number in C++ and its conversion is undefined; the model is the program
  for a cell size that is not 0.
\<close>

definition cell_row :: "globals \<Rightarrow> point2f \<Rightarrow> int" where
  "cell_row g pt = float_to_int (snd pt / real_of_int (cellSize g))"

definition cell_col :: "globals \<Rightarrow> point2f \<Rightarrow> int" where
  "cell_col g pt = float_to_int (fst pt / real_of_int (cellSize g))"

definition isInsideGrid :: "globals \<Rightarrow> point2f \<Rightarrow> bool" where
  "isInsideGrid g pt =
     (let r = cell_row g pt; c = cell_col g pt
      in r \<ge> 0 \<and> r < gridSize g \<and> c \<ge> 0 \<and> c < gridSize g)"

definition isObstacle :: "globals \<Rightarrow> point2f \<Rightarrow> bool" where
  "isObstacle g pt =
     (if \<not> isInsideGrid g pt then True
      else let r = cell_row g pt; c = cell_col g pt in (r, c) \<in> obstacles g)"

text \<open>
  The point \<^verbatim>\<open>a + (b - a) * (i / 10.0f)\<close> that
  \<^verbatim>\<open>collisionFree\<close> tests in round \<open>i\<close>.
\<close>

definition sample_pt :: "point2f \<Rightarrow> point2f \<Rightarrow> nat \<Rightarrow> point2f" where
  "sample_pt a b i = p_add a (p_scale (p_sub b a) (real i / 10))"

text \<open>
  The loop \<^verbatim>\<open>for (int i = 1; i <= 10; ++i)\<close> of
  \<^verbatim>\<open>collisionFree\<close>, from round \<open>i\<close> on.
\<close>

function collisionFree_from :: "globals \<Rightarrow> point2f \<Rightarrow> point2f \<Rightarrow> nat \<Rightarrow> bool" where
  "collisionFree_from g a b i =
     (if i \<le> 10 then
        (let pt = sample_pt a b i
         in if \<not> isInsideGrid g pt \<or> isObstacle g pt then False
            else collisionFree_from g a b (i + 1))
      else True)"
  by pat_completeness auto
termination
  by (relation "measure (\<lambda>(g, a, b, i). 11 - i)") auto

declare collisionFree_from.simps [simp del]

definition collisionFree :: "globals \<Rightarrow> point2f \<Rightarrow> point2f \<Rightarrow> bool" where
  "collisionFree g a b = collisionFree_from g a b 1"

subsection \<open>Path extraction and greedy shortcutting (\<^verbatim>\<open>smoothPath\<close>)\<close>

text \<open>
  The first loop of \<^verbatim>\<open>smoothPath\<close>:
  \<^verbatim>\<open>for (int cur = goalIdx; cur != -1; cur = tree[cur].parent) path.push_back(tree[cur].point);\<close>
  It has no bound, so it is a partial function: \<open>None\<close> stands for a walk that never
  ends, and also for a read of \<^verbatim>\<open>tree[cur]\<close> outside the vector.
\<close>

partial_function (option) walk_parents ::
  "node list \<Rightarrow> int \<Rightarrow> point2f list \<Rightarrow> point2f list option" where
  "walk_parents tree cur path =
     (if cur \<noteq> - 1 then
        (if 0 \<le> cur \<and> cur < int (length tree)
         then walk_parents tree (parent (tree ! nat cur)) (path @ [point (tree ! nat cur)])
         else None)
      else Some path)"

text \<open>
  The same walk with a bound on the number of nodes it may visit; \<open>walk_bounded tree n cur\<close>
  is \<open>True\<close> when the walk from \<open>cur\<close> arrives at the sentinel \<open>-1\<close> after visiting at
  most \<open>n\<close> nodes.
\<close>

fun walk_bounded :: "node list \<Rightarrow> nat \<Rightarrow> int \<Rightarrow> bool" where
  "walk_bounded tree 0 cur = (cur = - 1)"
| "walk_bounded tree (Suc n) cur =
     (if cur \<noteq> - 1 then
        (if 0 \<le> cur \<and> cur < int (length tree)
         then walk_bounded tree n (parent (tree ! nat cur))
         else False)
      else True)"

text \<open>
  The inner scan \<^verbatim>\<open>for (j = path.size() - 1; j > i; --j) if (collisionFree(path[i], path[j])) break;\<close>
  from position \<open>j\<close> on; its value is \<open>j\<close> at the exit of the scan.
\<close>

function scan_back :: "globals \<Rightarrow> point2f list \<Rightarrow> nat \<Rightarrow> nat \<Rightarrow> nat" where
  "scan_back g path i j =
     (if j > i then
        (if collisionFree g (path ! i) (path ! j) then j else scan_back g path i (j - 1))
      else j)"
  by pat_completeness auto
termination
  by (relation "measure (\<lambda>(g, path, i, j). j)") auto

declare scan_back.simps [simp del]

text \<open>
  The outer loop \<^verbatim>\<open>for (int i = 0, j; i < path.size() - 1; i = j)\<close>.  Nothing in the
  source makes \<open>j\<close> larger than \<open>i\<close>, so the loop is a partial function.
\<close>

partial_function (option) smooth_loop ::
  "globals \<Rightarrow> point2f list \<Rightarrow> nat \<Rightarrow> point2f list \<Rightarrow> point2f list option" where
  "smooth_loop g path i smoothed =
     (if i < length path - 1 then
        (let j = scan_back g path i (length path - 1)
         in smooth_loop g path j (smoothed @ [path ! j]))
      else Some smoothed)"

text \<open>
  Lines 122 to 128 of \<^verbatim>\<open>smoothPath\<close>, on the reversed path.  \<^verbatim>\<open>path.front()\<close> of an
  empty vector is undefined in C++; the model has no result there.
\<close>

definition shortcut :: "globals \<Rightarrow> point2f list \<Rightarrow> point2f list option" where
  "shortcut g path = (if path = [] then None else smooth_loop g path 0 [hd path])"

definition smoothPath :: "globals \<Rightarrow> node list \<Rightarrow> int \<Rightarrow> point2f list option" where
  "smoothPath g tree goalIdx =
     (case walk_parents tree goalIdx [] of
        None \<Rightarrow> None
      | Some path \<Rightarrow> shortcut g (rev path))"

subsection \<open>The grid editor: \<^verbatim>\<open>mouseCallback\<close> and the set-up loop of \<^verbatim>\<open>main\<close>\<close>

datatype mouse_event = EVENT_LBUTTONDOWN | EVENT_RBUTTONDOWN | EVENT_OTHER

definition toggle :: "int \<times> int \<Rightarrow> (int \<times> int) set \<Rightarrow> (int \<times> int) set" where
  "toggle cell obs = (if cell \<in> obs then obs - {cell} else insert cell obs)"

text \<open>
  \<^verbatim>\<open>x / cellSize\<close> is a division of \<^verbatim>\<open>int\<close>s, rounding toward zero; with a cell size of
  zero the program stops with a division error (\<open>None\<close>).  Drawing is left out.
\<close>

definition mouseCallback :: "mouse_event \<Rightarrow> int \<Rightarrow> int \<Rightarrow> globals \<Rightarrow> globals option" where
  "mouseCallback event x y g =
     (if cellSize g = 0 then None
      else
        let col = x sdiv cellSize g; row = y sdiv cellSize g
        in if col \<ge> gridSize g \<or> row \<ge> gridSize g then Some g
           else
             let cell = (row, col)
             in if event = EVENT_LBUTTONDOWN then
                  (if start g = (col, row) \<or> goal g = (col, row) then Some g
                   else Some (g\<lparr>obstacles := toggle cell (obstacles g),
                                 undoStack := cell # undoStack g,
                                 redoStack := []\<rparr>))
                else if event = EVENT_RBUTTONDOWN then
                  (if selectingStart g
                   then Some (g\<lparr>start := (col, row), selectingStart := False\<rparr>)
                   else Some (g\<lparr>goal := (col, row)\<rparr>))
                else Some g)"

text \<open>
  One round of \<^verbatim>\<open>while (!configured)\<close> for the key that \<^verbatim>\<open>cv::waitKey\<close> returned:
  \<open>117\<close> is \<^verbatim>\<open>'u'\<close>, \<open>114\<close> is \<^verbatim>\<open>'r'\<close> and \<open>115\<close> is \<^verbatim>\<open>'s'\<close>.
\<close>

definition handleKey :: "int \<Rightarrow> globals \<Rightarrow> globals" where
  "handleKey key g =
     (if key = 117 \<and> undoStack g \<noteq> [] then
        (let cell = hd (undoStack g)
         in g\<lparr>undoStack := tl (undoStack g),
               obstacles := toggle cell (obstacles g),
               redoStack := cell # redoStack g\<rparr>)
      else if key = 114 \<and> redoStack g \<noteq> [] then
        (let cell = hd (redoStack g)
         in g\<lparr>redoStack := tl (redoStack g),
               obstacles := toggle cell (obstacles g),
               undoStack := cell # undoStack g\<rparr>)
      else if key = 115 \<and> fst (start g) \<noteq> - 1 \<and> fst (goal g) \<noteq> - 1 then
        g\<lparr>configured := True\<rparr>
      else g)"

text \<open>
  What the user does while the set-up window is open: mouse events, delivered to
  \<^verbatim>\<open>mouseCallback\<close>, and keys.  The loop consumes them until \<open>configured\<close> is set; when the
  inputs run out before that, the program is still waiting and the planner has not run.
\<close>

datatype user_input = Mouse mouse_event int int | Key int

fun setup_loop :: "user_input list \<Rightarrow> globals \<Rightarrow> globals option" where
  "setup_loop [] g = Some g"
| "setup_loop (inp # rest) g =
     (if configured g then Some g
      else
        (case inp of
           Mouse event x y \<Rightarrow>
             (case mouseCallback event x y g of
                None \<Rightarrow> None
              | Some g' \<Rightarrow> setup_loop rest g')
         | Key key \<Rightarrow> setup_loop rest (handleKey key g)))"

text \<open>
  The globals after \<^verbatim>\<open>std::cin >> gridSize; cellSize = canvasSize / gridSize;\<close>: a grid
  size of zero is a division by zero.
\<close>

definition init_globals :: "int \<Rightarrow> globals option" where
  "init_globals n =
     (if n = 0 then None
      else Some \<lparr>gridSize = n, cellSize = canvasSize sdiv n,
                 start = (- 1, - 1), goal = (- 1, - 1), obstacles = {},
                 undoStack = [], redoStack = [],
                 selectingStart = True, configured = False\<rparr>)"

subsection \<open>The RRT* loop of \<^verbatim>\<open>main\<close>\<close>

text \<open>
  \<^verbatim>\<open>cv::Point2f startPt(start.x * cellSize + cellSize / 2, start.y * cellSize + cellSize / 2)\<close>,
  computed on \<^verbatim>\<open>int\<close>s, and the same for the goal.
\<close>

definition cell_centre :: "globals \<Rightarrow> int \<times> int \<Rightarrow> point2f" where
  "cell_centre g c =
     (real_of_int (fst c * cellSize g + cellSize g sdiv 2),
      real_of_int (snd c * cellSize g + cellSize g sdiv 2))"

definition startPt :: "globals \<Rightarrow> point2f" where
  "startPt g = cell_centre g (start g)"

definition goalPt :: "globals \<Rightarrow> point2f" where
  "goalPt g = cell_centre g (goal g)"

definition MAX_ITER :: nat where
  "MAX_ITER = 10000"

text \<open>
  The search for the nearest node, from index \<open>j\<close> on; the accumulator is
  \<open>(nearest, bestDist)\<close>, which starts as \<open>(-1, 1e9)\<close>.
\<close>

function nearest_from :: "node list \<Rightarrow> point2f \<Rightarrow> nat \<Rightarrow> int \<times> real \<Rightarrow> int \<times> real" where
  "nearest_from tree randPt j acc =
     (if j < length tree then
        (let d = dist_pt (point (tree ! j)) randPt
         in if d < snd acc then nearest_from tree randPt (j + 1) (int j, d)
            else nearest_from tree randPt (j + 1) acc)
      else acc)"
  by pat_completeness auto
termination
  by (relation "measure (\<lambda>(tree, randPt, j, acc). length tree - j)") auto

declare nearest_from.simps [simp del]

text \<open>
  The choice of the parent among the nodes within \<open>radius\<close> of the new point, from index
  \<open>j\<close> on; the accumulator is \<open>(bestParent, bestCost)\<close>.
\<close>

function choose_parent_from ::
  "globals \<Rightarrow> node list \<Rightarrow> point2f \<Rightarrow> real \<Rightarrow> nat \<Rightarrow> int \<times> real \<Rightarrow> int \<times> real" where
  "choose_parent_from g tree newPt radius j acc =
     (if j < length tree then
        (if dist_pt (point (tree ! j)) newPt < radius \<and> collisionFree g (point (tree ! j)) newPt
         then
           (let c = cost (tree ! j) + dist_pt (point (tree ! j)) newPt
            in if c < snd acc then choose_parent_from g tree newPt radius (j + 1) (int j, c)
               else choose_parent_from g tree newPt radius (j + 1) acc)
         else choose_parent_from g tree newPt radius (j + 1) acc)
      else acc)"
  by pat_completeness auto
termination
  by (relation "measure (\<lambda>(g, tree, newPt, radius, j, acc). length tree - j)") auto

declare choose_parent_from.simps [simp del]

text \<open>
  The rewiring pass, from index \<open>j\<close> on: it overwrites \<^verbatim>\<open>tree[j].parent\<close> and
  \<^verbatim>\<open>tree[j].cost\<close> in place.
\<close>

function rewire_from ::
  "globals \<Rightarrow> point2f \<Rightarrow> real \<Rightarrow> real \<Rightarrow> nat \<Rightarrow> nat \<Rightarrow> node list \<Rightarrow> node list" where
  "rewire_from g newPt bestCost radius newIdx j tree =
     (if j < length tree then
        (if j = newIdx then rewire_from g newPt bestCost radius newIdx (j + 1) tree
         else if dist_pt (point (tree ! j)) newPt < radius
                 \<and> collisionFree g newPt (point (tree ! j))
         then
           (let newCost = bestCost + dist_pt newPt (point (tree ! j))
            in if newCost < cost (tree ! j)
               then rewire_from g newPt bestCost radius newIdx (j + 1)
                      (tree[j := (tree ! j)\<lparr>parent := int newIdx, cost := newCost\<rparr>])
               else rewire_from g newPt bestCost radius newIdx (j + 1) tree)
         else rewire_from g newPt bestCost radius newIdx (j + 1) tree)
      else tree)"
  by pat_completeness auto
termination
  by (relation "measure (\<lambda>(g, newPt, bestCost, radius, newIdx, j, tree). length tree - j)") auto

declare rewire_from.simps [simp del]

text \<open>
  \<^verbatim>\<open>50.0f * std::sqrt(std::log(tree.size() + 1) / (tree.size() + 1))\<close>
\<close>

definition near_radius :: "nat \<Rightarrow> real" where
  "near_radius n = 50 * sqrt (ln (real (n + 1)) / real (n + 1))"

text \<open>
  How one round of the main loop ends: with \<^verbatim>\<open>continue\<close> or at the end of the body
  (\<open>Continue\<close>, with the tree as it is then), or with \<^verbatim>\<open>break\<close> after \<open>goalIdx\<close> is set.
\<close>

datatype iter_result = Continue "node list" | Break "node list" int

text \<open>
  Round \<open>i\<close> of the main loop.  \<open>rnd i\<close> is the point \<^verbatim>\<open>(dis(rng), dis(rng))\<close> the random
  generator delivers in that round.  When no node is nearer than \<open>1e9\<close> to the sample,
  \<open>nearest\<close> is still \<open>-1\<close> at \<^verbatim>\<open>tree[nearest]\<close>: the read is outside the vector and the
  round has no result (\<open>None\<close>).
\<close>

definition iteration ::
  "globals \<Rightarrow> (nat \<Rightarrow> point2f) \<Rightarrow> nat \<Rightarrow> node list \<Rightarrow> iter_result option" where
  "iteration g rnd i tree =
     (let randPt = (if i mod 5 = 0 then goalPt g else clampToGrid (rnd i))
      in if \<not> isInsideGrid g randPt \<or> isObstacle g randPt then Some (Continue tree)
         else
           let (nearest, bestDist) = nearest_from tree randPt 0 (- 1, 1000000000)
           in if nearest < 0 \<or> nearest \<ge> int (length tree) then None
              else
                let nearPt = point (tree ! nat nearest);
                    stepSize = min 50 bestDist;
                    dir = p_sub randPt nearPt
                in if p_norm dir = 0 then Some (Continue tree)
                   else
                     let dir' = p_scale dir (stepSize / p_norm dir);
                         newPt = clampToGrid (p_add nearPt dir')
                     in if \<not> isInsideGrid g newPt \<or> \<not> collisionFree g nearPt newPt
                        then Some (Continue tree)
                        else
                          let radius = near_radius (length tree);
                              (bestParent, bestCost) =
                                 choose_parent_from g tree newPt radius 0
                                   (nearest, cost (tree ! nat nearest) + dist_pt nearPt newPt);
                              newIdx = length tree;
                              tree' = tree @ [\<lparr>point = newPt, parent = bestParent, cost = bestCost\<rparr>];
                              tree'' = rewire_from g newPt bestCost radius newIdx 0 tree'
                          in if dist_pt newPt (goalPt g) < real_of_int (cellSize g) * (6 / 10)
                             then Some (Break tree'' (int newIdx))
                             else Some (Continue tree''))"

text \<open>
  \<^verbatim>\<open>for (int i = 0; i < MAX_ITER; ++i)\<close> from round \<open>i\<close> on, with the bound as a parameter.
  The result is the tree, \<open>goalIdx\<close> and the value of \<open>i\<close> when the loop is left.
\<close>

function rrt_loop ::
  "globals \<Rightarrow> (nat \<Rightarrow> point2f) \<Rightarrow> nat \<Rightarrow> nat \<Rightarrow> node list \<Rightarrow> (node list \<times> int \<times> nat) option" where
  "rrt_loop g rnd maxIter i tree =
     (if i < maxIter then
        (case iteration g rnd i tree of
           None \<Rightarrow> None
         | Some (Continue tree') \<Rightarrow> rrt_loop g rnd maxIter (i + 1) tree'
         | Some (Break tree' goalIdx) \<Rightarrow> Some (tree', goalIdx, i))
      else Some (tree, - 1, i))"
  by pat_completeness auto
termination
  by (relation "measure (\<lambda>(g, rnd, maxIter, i, tree). maxIter - i)") auto

declare rrt_loop.simps [simp del]

text \<open>
  The tree \<^verbatim>\<open>{{startPt, -1, 0}}\<close> the loop starts from, and the loop of
  \<^verbatim>\<open>main\<close>.
\<close>

definition init_tree :: "globals \<Rightarrow> node list" where
  "init_tree g = [\<lparr>point = startPt g, parent = - 1, cost = 0\<rparr>]"

definition plan :: "globals \<Rightarrow> (nat \<Rightarrow> point2f) \<Rightarrow> (node list \<times> int \<times> nat) option" where
  "plan g rnd = rrt_loop g rnd MAX_ITER 0 (init_tree g)"

subsection \<open>Auxiliary notions for the shortcutting loop\<close>

text \<open>
  Every waypoint of the path is joined to the next one by a segment that passes
  \<open>collisionFree\<close>.
\<close>

definition chain_free :: "globals \<Rightarrow> point2f list \<Rightarrow> bool" where
  "chain_free g path = (\<forall>k. Suc k < length path \<longrightarrow> collisionFree g (path ! k) (path ! Suc k))"

text \<open>
  \<open>greedy_chain g path a js\<close>: started at the anchor \<open>a\<close>, the outer loop takes the anchors
  \<open>js\<close> one after the other, each of them larger than the one before, and stops after the
  last of them.
\<close>

fun greedy_chain :: "globals \<Rightarrow> point2f list \<Rightarrow> nat \<Rightarrow> nat list \<Rightarrow> bool" where
  "greedy_chain g path a [] = (\<not> a < length path - 1)"
| "greedy_chain g path a (b # js) =
     (a < length path - 1 \<and> b = scan_back g path a (length path - 1) \<and> a < b
      \<and> greedy_chain g path b js)"

subsection \<open>Auxiliary notions for the planning loop\<close>

text \<open>
  The stored cost of node \<open>j\<close> is at least the stored cost of its parent plus the
  distance between the two.
\<close>

definition cost_ge :: "node list \<Rightarrow> nat \<Rightarrow> bool" where
  "cost_ge tree j =
     (cost (tree ! nat (parent (tree ! j)))
        + dist_pt (point (tree ! j)) (point (tree ! nat (parent (tree ! j)))) \<le> cost (tree ! j))"

text \<open>
  The stored cost of node \<open>j\<close> equals the stored cost of its parent plus the
  distance between the two.
\<close>

definition cost_eq :: "node list \<Rightarrow> nat \<Rightarrow> bool" where
  "cost_eq tree j =
     (cost (tree ! j) = cost (tree ! nat (parent (tree ! j)))
        + dist_pt (point (tree ! j)) (point (tree ! nat (parent (tree ! j)))))"

text \<open>
  What holds of the tree between two rounds of the main loop: node 0 is the root with cost 0,
  costs are not negative, every other node has a parent in the tree, a cost that is at least the
  cost through its parent and a collision-free segment from its parent, and the walk along the
  parents arrives at the sentinel from every node.
\<close>

definition tree_inv :: "globals \<Rightarrow> node list \<Rightarrow> bool" where
  "tree_inv g tree =
     (tree \<noteq> [] \<and> parent (tree ! 0) = - 1 \<and> cost (tree ! 0) = 0
      \<and> (\<forall>j. j < length tree \<longrightarrow> 0 \<le> cost (tree ! j))
      \<and> (\<forall>j. 0 < j \<and> j < length tree \<longrightarrow>
            0 \<le> parent (tree ! j) \<and> parent (tree ! j) < int (length tree)
            \<and> cost_ge tree j
            \<and> collisionFree g (point (tree ! nat (parent (tree ! j)))) (point (tree ! j)))
      \<and> (\<forall>j. j < length tree \<longrightarrow> (\<exists>k. walk_bounded tree k (int j))))"

text \<open>
  The accumulator \<open>(bestParent, bestCost)\<close> of the parent choice names a node of the
  tree, the cost through it, and a collision-free segment from it.
\<close>

definition parent_ok :: "globals \<Rightarrow> node list \<Rightarrow> point2f \<Rightarrow> int \<times> real \<Rightarrow> bool" where
  "parent_ok g tree newPt acc =
     (0 \<le> fst acc \<and> fst acc < int (length tree)
      \<and> snd acc = cost (tree ! nat (fst acc)) + dist_pt (point (tree ! nat (fst acc))) newPt
      \<and> collisionFree g (point (tree ! nat (fst acc))) newPt)"

text \<open>The test under which the rewiring pass overwrites node \<open>k\<close>.\<close>

definition rewired :: "globals \<Rightarrow> point2f \<Rightarrow> real \<Rightarrow> real \<Rightarrow> nat \<Rightarrow> node list \<Rightarrow> nat \<Rightarrow> bool" where
  "rewired g newPt bestCost radius newIdx tree k =
     (k \<noteq> newIdx \<and> dist_pt (point (tree ! k)) newPt < radius
      \<and> collisionFree g newPt (point (tree ! k))
      \<and> bestCost + dist_pt newPt (point (tree ! k)) < cost (tree ! k))"

text \<open>The tree after the new node is appended and the rewiring pass has run.\<close>

definition grow :: "globals \<Rightarrow> node list \<Rightarrow> point2f \<Rightarrow> int \<Rightarrow> real \<Rightarrow> node list" where
  "grow g tree newPt bp bc =
     rewire_from g newPt bc (near_radius (length tree)) (length tree) 0
       (tree @ [\<lparr>point = newPt, parent = bp, cost = bc\<rparr>])"

text \<open>The tree a round leaves behind.\<close>

fun tree_of :: "iter_result \<Rightarrow> node list" where
  "tree_of (Continue tree) = tree"
| "tree_of (Break tree goalIdx) = tree"

text \<open>
  The test \<^verbatim>\<open>dist(newPt, goalPt) < cellSize * 0.6f\<close> that ends the
  search.
\<close>

definition captured :: "globals \<Rightarrow> point2f \<Rightarrow> bool" where
  "captured g p = (dist_pt p (goalPt g) < real_of_int (cellSize g) * (6 / 10))"



text \<open>No node but the root lies within the capture radius of the goal.\<close>

definition no_capture :: "globals \<Rightarrow> node list \<Rightarrow> bool" where
  "no_capture g tree = (\<forall>j. 0 < j \<and> j < length tree \<longrightarrow> \<not> captured g (point (tree ! j)))"

section \<open>Concrete configurations\<close>

text \<open>
  A grid of 5 by 5 cells of 100 pixels, as \<^verbatim>\<open>main\<close> sets it up for the input \<open>5\<close>, after the
  user has picked the start cell \<open>s\<close>, the goal cell \<open>t\<close> and the obstacle cells \<open>obs\<close> and
  pressed \<^verbatim>\<open>'s'\<close>.
\<close>

definition grid5 :: "int \<times> int \<Rightarrow> int \<times> int \<Rightarrow> (int \<times> int) set \<Rightarrow> globals" where
  "grid5 s t obs =
     \<lparr>gridSize = 5, cellSize = 100, start = s, goal = t, obstacles = obs,
      undoStack = [], redoStack = [], selectingStart = False, configured = True\<rparr>"

text \<open>The globals when the set-up window opens on a grid of 5 by 5 cells.\<close>

definition fresh5 :: globals where
  "fresh5 =
     \<lparr>gridSize = 5, cellSize = 100, start = (- 1, - 1), goal = (- 1, - 1), obstacles = {},
      undoStack = [], redoStack = [], selectingStart = True, configured = False\<rparr>"

text \<open>
  Two right clicks into the cell in the top left corner, then the key
  \<^verbatim>\<open>'s'\<close>.
\<close>

definition same_cell_inputs :: "user_input list" where
  "same_cell_inputs = [Mouse EVENT_RBUTTONDOWN 50 50, Mouse EVENT_RBUTTONDOWN 50 50, Key 115]"

text \<open>A node given by its three fields.\<close>

abbreviation mk_node :: "point2f \<Rightarrow> int \<Rightarrow> real \<Rightarrow> node" where
  "mk_node p q c \<equiv> \<lparr>point = p, parent = q, cost = c\<rparr>"

text \<open>
  The points the random generator delivers in a run on the 5 by 5 grid without obstacles,
  from the start cell in the top left corner to the goal cell two columns to its right.
  Rounds 0 and 5 take the goal itself; every round after round 5 would get the start point.
\<close>

definition detour_rnd :: "nat \<Rightarrow> point2f" where
  "detour_rnd i =
     (if i = 1 then (86, 50) else if i = 2 then (86, 86) else if i = 3 then (64, 50)
      else if i = 4 then (150, 50) else (50, 50))"

text \<open>
  The tree of that run after three rounds, after four rounds, and when the loop is left.
\<close>

definition detour_tree3 :: "node list" where
  "detour_tree3 =
     [mk_node (50, 50) (- 1) 0, mk_node (100, 50) 0 50, mk_node (86, 50) 1 64,
      mk_node (86, 86) 2 100]"

definition detour_tree4 :: "node list" where
  "detour_tree4 =
     [mk_node (50, 50) (- 1) 0, mk_node (100, 50) 0 50, mk_node (86, 50) 4 36,
      mk_node (86, 86) 2 100, mk_node (64, 50) 0 14]"

definition detour_final :: "node list" where
  "detour_final =
     [mk_node (50, 50) (- 1) 0, mk_node (100, 50) 0 50, mk_node (86, 50) 4 36,
      mk_node (86, 86) 2 100, mk_node (64, 50) 0 14, mk_node (150, 50) 1 100,
      mk_node (200, 50) 5 150]"

section \<open>Properties of the occupancy queries\<close>

lemmas occ_defs = isObstacle_def isInsideGrid_def cell_row_def cell_col_def float_to_int_def

lemmas pt_defs = sample_pt_def p_add_def p_sub_def p_scale_def

lemma collisionFree_from_iff:
  "collisionFree_from g a b i \<longleftrightarrow>
     (\<forall>k\<in>{i..10}. isInsideGrid g (sample_pt a b k) \<and> \<not> isObstacle g (sample_pt a b k))"
proof (induction g a b i rule: collisionFree_from.induct)
  case (1 g a b i)
  show ?case
  proof (cases "i \<le> 10")
    case True
    note le = this
    show ?thesis
    proof (cases "\<not> isInsideGrid g (sample_pt a b i) \<or> isObstacle g (sample_pt a b i)")
      case True
      with le show ?thesis
        by (subst collisionFree_from.simps) (auto simp: Let_def)
    next
      case False
      have "{i..10} = insert i {i + 1..10}" using le by auto
      with False le 1 show ?thesis
        by (subst collisionFree_from.simps) (auto simp: Let_def)
    qed
  next
    case False
    then show ?thesis by (subst collisionFree_from.simps) auto
  qed
qed



lemma wall_segment_free:
  "\<not> (\<exists>t :: real. 0 < t \<and> t \<le> 1
        \<and> isObstacle (grid5 (0, 0) (4, 0) {(0, 1)}) (100 + (50 - 100) * t, 50 + (50 - 50) * t))"
proof
  assume "\<exists>t :: real. 0 < t \<and> t \<le> 1
        \<and> isObstacle (grid5 (0, 0) (4, 0) {(0, 1)}) (100 + (50 - 100) * t, 50 + (50 - 50) * t)"
  then obtain t :: real where t: "0 < t" "t \<le> 1"
    and ob: "isObstacle (grid5 (0, 0) (4, 0) {(0, 1)}) (100 + (50 - 100) * t, 50 + (50 - 50) * t)"
    by blast
  let ?x = "100 + (50 - 100) * t"
  have x: "0 \<le> ?x / 100" "?x / 100 < 1" using t by simp_all
  then have f: "\<lfloor>?x / 100\<rfloor> = 0" by (simp add: floor_eq_iff)
  have "\<not> isObstacle (grid5 (0, 0) (4, 0) {(0, 1)}) (?x, 50 + (50 - 50) * t)"
    using x f by (simp add: occ_defs grid5_def)
  with ob show False by simp
qed

text \<open>
  Claim C9.  The segment test is not commutative.  On the 5 by 5 grid whose only obstacle is
  the cell in row 0 and column 1, the point \<open>a = (100, 50)\<close> lies in the obstacle cell and
  every other point of the segment from \<open>a\<close> to \<open>b = (50, 50)\<close> is free.  The point \<open>a\<close> is not
  among the ten points that \<open>collisionFree a b\<close> tests, the tenth of which is \<open>b\<close>;
  \<open>collisionFree a b\<close> is true and \<open>collisionFree b a\<close> is false.
\<close>

theorem collisionFree_not_commutative:
  "isObstacle (grid5 (0, 0) (4, 0) {(0, 1)}) (100, 50)
   \<and> \<not> (\<exists>t :: real. 0 < t \<and> t \<le> 1
        \<and> isObstacle (grid5 (0, 0) (4, 0) {(0, 1)}) (100 + (50 - 100) * t, 50 + (50 - 50) * t))
   \<and> (100, 50) \<notin> sample_pt (100, 50) (50, 50) ` {1..10}
   \<and> sample_pt (100, 50) (50, 50) 10 = (50, 50)
   \<and> collisionFree (grid5 (0, 0) (4, 0) {(0, 1)}) (100, 50) (50, 50)
   \<and> \<not> collisionFree (grid5 (0, 0) (4, 0) {(0, 1)}) (50, 50) (100, 50)"
proof -
  have "isObstacle (grid5 (0, 0) (4, 0) {(0, 1)}) (100, 50)
   \<and> (100, 50) \<notin> sample_pt (100, 50) (50, 50) ` {1..10}
   \<and> sample_pt (100, 50) (50, 50) 10 = (50, 50)
   \<and> collisionFree (grid5 (0, 0) (4, 0) {(0, 1)}) (100, 50) (50, 50)
   \<and> \<not> collisionFree (grid5 (0, 0) (4, 0) {(0, 1)}) (50, 50) (100, 50)"
    unfolding collisionFree_def
    by (auto simp add: collisionFree_from.simps pt_defs occ_defs grid5_def)
  then show ?thesis using wall_segment_free by simp
qed

text \<open>
  Claim C4.  The claim says that a point with a coordinate outside \<open>[0, extent)\<close> is never
  inside the grid and always blocked.  On the 5 by 5 grid without obstacles the point
  \<open>(-1, -1)\<close> is inside the grid for \<open>isInsideGrid\<close> and free for \<open>isObstacle\<close>: the quotient
  \<open>-1 / 100\<close> is converted to the \<^verbatim>\<open>int\<close> \<open>0\<close>, not to \<open>-1\<close>.
\<close>

theorem isInsideGrid_truncates_toward_zero:
  "isInsideGrid (grid5 (0, 0) (4, 0) {}) (- 1, - 1)
   \<and> \<not> isObstacle (grid5 (0, 0) (4, 0) {}) (- 1, - 1)
   \<and> cell_row (grid5 (0, 0) (4, 0) {}) (- 1, - 1) = 0
   \<and> cell_col (grid5 (0, 0) (4, 0) {}) (- 1, - 1) = 0"
proof -
  have "\<lceil>- (1 / 100) :: real\<rceil> = 0"
    by (simp add: ceiling_eq_iff)
  then show ?thesis
    by (simp add: occ_defs grid5_def)
qed

text \<open>
  What the two queries do compute, for a positive cell size and grid size.  The grid covers
  the coordinates from 0 up to \<open>gridSize * cellSize\<close> (the whole canvas of 500 pixels when the
  grid size divides 500, and 498 pixels for a grid size of 3).  A point is inside the grid for
  \<open>isInsideGrid\<close> exactly when both coordinates lie strictly between \<open>- cellSize\<close> and
  \<open>gridSize * cellSize\<close>.  A point with both coordinates from 0 on maps to its cell by floor
  division and is blocked exactly when that cell is an obstacle; a point with a coordinate of
  at most \<open>- cellSize\<close> or at least \<open>gridSize * cellSize\<close> is outside and blocked.
\<close>

lemma float_to_int_range:
  fixes x :: real
  assumes c: "0 < c" and n: "0 < n"
  shows "0 \<le> float_to_int (x / real_of_int c) \<and> float_to_int (x / real_of_int c) < n
     \<longleftrightarrow> - real_of_int c < x \<and> x < real_of_int (n * c)"
proof (cases "0 \<le> x")
  case True
  then have q: "0 \<le> x / real_of_int c" using c by simp
  have "\<lfloor>x / real_of_int c\<rfloor> < n \<longleftrightarrow> x / real_of_int c < real_of_int n"
    by (simp add: floor_less_iff)
  also have "\<dots> \<longleftrightarrow> x < real_of_int (n * c)" using c by (simp add: field_simps)
  finally show ?thesis using q True c by (simp add: float_to_int_def)
next
  case False
  then have q: "\<not> 0 \<le> x / real_of_int c" using c by (simp add: zero_le_divide_iff)
  have "0 \<le> \<lceil>x / real_of_int c\<rceil> \<longleftrightarrow> - 1 < x / real_of_int c" by (simp add: zero_le_ceiling)
  also have "\<dots> \<longleftrightarrow> - real_of_int c < x" using c by (simp add: field_simps)
  finally have lo: "0 \<le> \<lceil>x / real_of_int c\<rceil> \<longleftrightarrow> - real_of_int c < x" .
  have "x / real_of_int c \<le> real_of_int 0" using q by simp
  then have "\<lceil>x / real_of_int c\<rceil> \<le> 0" by (rule ceiling_le)
  then have hi: "\<lceil>x / real_of_int c\<rceil> < n" using n by linarith
  have "x < real_of_int (n * c)"
  proof -
    have "0 < real_of_int (n * c)" using c n by simp
    then show ?thesis using False by linarith
  qed
  then show ?thesis using q lo hi by (simp add: float_to_int_def)
qed

lemma isInsideGrid_iff:
  assumes "0 < cellSize g" "0 < gridSize g"
  shows "isInsideGrid g (x, y) \<longleftrightarrow>
     - real_of_int (cellSize g) < x \<and> x < real_of_int (gridSize g * cellSize g)
     \<and> - real_of_int (cellSize g) < y \<and> y < real_of_int (gridSize g * cellSize g)"
  using float_to_int_range[OF assms, of x] float_to_int_range[OF assms, of y]
  by (auto simp: isInsideGrid_def cell_row_def cell_col_def Let_def)

lemma occupancy_in_range:
  assumes "0 < cellSize g" "0 < gridSize g"
    and "0 \<le> x" "x < real_of_int (gridSize g * cellSize g)"
    and "0 \<le> y" "y < real_of_int (gridSize g * cellSize g)"
  shows "isInsideGrid g (x, y)
     \<and> cell_row g (x, y) = \<lfloor>y / real_of_int (cellSize g)\<rfloor>
     \<and> cell_col g (x, y) = \<lfloor>x / real_of_int (cellSize g)\<rfloor>
     \<and> (isObstacle g (x, y) \<longleftrightarrow>
          (\<lfloor>y / real_of_int (cellSize g)\<rfloor>, \<lfloor>x / real_of_int (cellSize g)\<rfloor>) \<in> obstacles g)"
proof -
  have i: "isInsideGrid g (x, y)" using assms by (simp add: isInsideGrid_iff)
  have r: "cell_row g (x, y) = \<lfloor>y / real_of_int (cellSize g)\<rfloor>"
    and c: "cell_col g (x, y) = \<lfloor>x / real_of_int (cellSize g)\<rfloor>"
    using assms by (simp_all add: cell_row_def cell_col_def float_to_int_def)
  show ?thesis using i r c by (simp add: isObstacle_def)
qed

lemma occupancy_out_of_range:
  assumes "0 < cellSize g" "0 < gridSize g"
    and "x \<le> - real_of_int (cellSize g) \<or> real_of_int (gridSize g * cellSize g) \<le> x
       \<or> y \<le> - real_of_int (cellSize g) \<or> real_of_int (gridSize g * cellSize g) \<le> y"
  shows "\<not> isInsideGrid g (x, y) \<and> isObstacle g (x, y)"
proof -
  have "\<not> isInsideGrid g (x, y)" using assms by (auto simp: isInsideGrid_iff)
  then show ?thesis by (simp add: isObstacle_def)
qed

section \<open>Properties of the set-up loop\<close>

lemma mouseCallback_configured:
  "mouseCallback e x y g = Some g' \<Longrightarrow> configured g' = configured g"
  by (auto simp: mouseCallback_def Let_def split: if_splits)

lemma handleKey_configured:
  "configured (handleKey key g) =
     (configured g \<or> (key = 115 \<and> fst (start g) \<noteq> - 1 \<and> fst (goal g) \<noteq> - 1))"
  by (auto simp: handleKey_def Let_def)

lemma setup_loop_configured: "configured g \<Longrightarrow> setup_loop ins g = Some g"
  by (cases ins) auto

lemma setup_loop_append:
  "setup_loop (pre @ post) g =
     (case setup_loop pre g of None \<Rightarrow> None | Some st \<Rightarrow> setup_loop post st)"
proof (induction pre arbitrary: g)
  case Nil
  show ?case by simp
next
  case (Cons inp pre)
  show ?case
  proof (cases "configured g")
    case True
    then show ?thesis by (simp add: setup_loop_configured)
  next
    case False
    then show ?thesis
      using Cons.IH by (cases inp) (auto split: option.splits)
  qed
qed

lemma setup_loop_configured_only_by_key:
  "\<not> configured g \<Longrightarrow> setup_loop ins g = Some g' \<Longrightarrow> configured g' \<Longrightarrow>
     \<exists>pre post st. ins = pre @ Key 115 # post \<and> setup_loop pre g = Some st \<and> \<not> configured st
        \<and> fst (start st) \<noteq> - 1 \<and> fst (goal st) \<noteq> - 1"
proof (induction ins arbitrary: g)
  case Nil
  then show ?case by auto
next
  case (Cons inp rest)
  have ex_cons: "\<exists>pre post st. inp # rest = pre @ Key 115 # post \<and> setup_loop pre g = Some st
        \<and> \<not> configured st \<and> fst (start st) \<noteq> - 1 \<and> fst (goal st) \<noteq> - 1"
    if g1: "\<And>pre. setup_loop (inp # pre) g = setup_loop pre g1"
      and nc: "\<not> configured g1" and run: "setup_loop rest g1 = Some g'" for g1
  proof -
    from Cons.IH[OF nc run Cons.prems(3)] obtain pre post st where
      "rest = pre @ Key 115 # post" "setup_loop pre g1 = Some st" "\<not> configured st"
      "fst (start st) \<noteq> - 1" "fst (goal st) \<noteq> - 1" by blast
    then have "inp # rest = (inp # pre) @ Key 115 # post \<and> setup_loop (inp # pre) g = Some st
       \<and> \<not> configured st \<and> fst (start st) \<noteq> - 1 \<and> fst (goal st) \<noteq> - 1"
      using g1 by simp
    then show ?thesis by blast
  qed
  show ?case
  proof (cases inp)
    case (Mouse e x y)
    with Cons.prems obtain g1 where
      g1: "mouseCallback e x y g = Some g1" "setup_loop rest g1 = Some g'"
      by (auto split: option.splits)
    then have nc: "\<not> configured g1" using Cons.prems mouseCallback_configured by blast
    show ?thesis
      by (rule ex_cons[OF _ nc g1(2)]) (use Cons.prems g1 Mouse in simp)
  next
    case (Key k)
    with Cons.prems have run: "setup_loop rest (handleKey k g) = Some g'" by simp
    show ?thesis
    proof (cases "configured (handleKey k g)")
      case True
      then have "k = 115 \<and> fst (start g) \<noteq> - 1 \<and> fst (goal g) \<noteq> - 1"
        using Cons.prems(1) by (simp add: handleKey_configured)
      then have "inp # rest = [] @ Key 115 # rest \<and> setup_loop [] g = Some g \<and> \<not> configured g
         \<and> fst (start g) \<noteq> - 1 \<and> fst (goal g) \<noteq> - 1"
        using Key Cons.prems(1) by simp
      then show ?thesis by blast
    next
      case False
      show ?thesis
        by (rule ex_cons[OF _ False run]) (use Cons.prems Key in simp)
    qed
  qed
qed

text \<open>
  Claim C3, as the code has it.  The set-up loop makes no check of the start cell against
  the goal cell.  The run becomes configured exactly when the key \<^verbatim>\<open>'s'\<close> arrives in a
  state in which a start cell and a goal cell have been picked (\<open>start.x\<close> and \<open>goal.x\<close>
  differ from \<open>-1\<close>); no other input sets the flag.
\<close>

theorem setup_loop_configured_iff:
  assumes "\<not> configured g" and "setup_loop ins g = Some g'"
  shows "configured g' \<longleftrightarrow>
     (\<exists>pre post st. ins = pre @ Key 115 # post \<and> setup_loop pre g = Some st \<and> \<not> configured st
        \<and> fst (start st) \<noteq> - 1 \<and> fst (goal st) \<noteq> - 1)"
proof
  assume "configured g'"
  with assms show "\<exists>pre post st. ins = pre @ Key 115 # post \<and> setup_loop pre g = Some st
      \<and> \<not> configured st \<and> fst (start st) \<noteq> - 1 \<and> fst (goal st) \<noteq> - 1"
    by (rule setup_loop_configured_only_by_key)
next
  assume "\<exists>pre post st. ins = pre @ Key 115 # post \<and> setup_loop pre g = Some st
      \<and> \<not> configured st \<and> fst (start st) \<noteq> - 1 \<and> fst (goal st) \<noteq> - 1"
  then obtain pre post st where h: "ins = pre @ Key 115 # post" "setup_loop pre g = Some st"
    "\<not> configured st" "fst (start st) \<noteq> - 1" "fst (goal st) \<noteq> - 1" by blast
  have c: "configured (handleKey 115 st)" using h by (simp add: handleKey_configured)
  have "setup_loop ins g = setup_loop (Key 115 # post) st"
    using h by (simp add: setup_loop_append)
  also have "\<dots> = Some (handleKey 115 st)"
    using h c by (simp add: setup_loop_configured)
  finally show "configured g'" using assms c by simp
qed

lemma setup_same_cell:
  "setup_loop same_cell_inputs fresh5 = Some (grid5 (0, 0) (0, 0) {})"
  by (simp add: same_cell_inputs_def fresh5_def grid5_def mouseCallback_def handleKey_def Let_def)

theorem setup_loop_configured_iff_witness:
  "\<not> configured fresh5
   \<and> setup_loop same_cell_inputs fresh5 = Some (grid5 (0, 0) (0, 0) {})
   \<and> configured (grid5 (0, 0) (0, 0) {})
   \<and> (\<exists>pre post st. same_cell_inputs = pre @ Key 115 # post \<and> setup_loop pre fresh5 = Some st
         \<and> \<not> configured st \<and> fst (start st) \<noteq> - 1 \<and> fst (goal st) \<noteq> - 1)"
proof -
  have nc: "\<not> configured fresh5" by (simp add: fresh5_def)
  have c: "configured (grid5 (0, 0) (0, 0) {})" by (simp add: grid5_def)
  show ?thesis
    using setup_loop_configured_iff [OF nc setup_same_cell] nc c setup_same_cell by simp
qed

text \<open>
  Claim C3, as stated, fails: for the grid size 5, two right clicks into the same cell
  make it the start and the goal, and the key \<^verbatim>\<open>'s'\<close> then sets \<open>configured\<close>, which ends the
  set-up loop and lets the planner start.
\<close>

theorem start_equals_goal_accepted:
  "Option.bind (init_globals 5) (setup_loop same_cell_inputs) = Some (grid5 (0, 0) (0, 0) {})
   \<and> configured (grid5 (0, 0) (0, 0) {})
   \<and> start (grid5 (0, 0) (0, 0) {}) = goal (grid5 (0, 0) (0, 0) {})"
  by (simp add: init_globals_def same_cell_inputs_def grid5_def mouseCallback_def
       handleKey_def canvasSize_def Let_def)

section \<open>Properties of the shortcutting loop\<close>

lemma scan_back_spec:
  "i \<le> m \<Longrightarrow>
     i \<le> scan_back g P i m \<and> scan_back g P i m \<le> m
     \<and> (i < scan_back g P i m \<longrightarrow> collisionFree g (P ! i) (P ! scan_back g P i m))
     \<and> (\<forall>k. scan_back g P i m < k \<and> k \<le> m \<longrightarrow> \<not> collisionFree g (P ! i) (P ! k))"
proof (induction g P i m rule: scan_back.induct)
  case (1 g path i j)
  show ?case
  proof (cases "j > i")
    case False
    then show ?thesis using 1 by (subst (1 2 3 4 5) scan_back.simps) auto
  next
    case True
    note gt = this
    show ?thesis
    proof (cases "collisionFree g (path ! i) (path ! j)")
      case True
      have "scan_back g path i j = j" using gt True by (subst scan_back.simps) simp
      then show ?thesis using gt True by auto
    next
      case False
      have eq: "scan_back g path i j = scan_back g path i (j - 1)"
        using gt False by (subst scan_back.simps) simp
      have "i \<le> j - 1" using gt by simp
      from 1(1)[OF gt False this]
      have ih: "i \<le> scan_back g path i (j - 1)" "scan_back g path i (j - 1) \<le> j - 1"
        "i < scan_back g path i (j - 1) \<longrightarrow>
           collisionFree g (path ! i) (path ! scan_back g path i (j - 1))"
        "\<forall>k. scan_back g path i (j - 1) < k \<and> k \<le> j - 1
           \<longrightarrow> \<not> collisionFree g (path ! i) (path ! k)"
        by auto
      have "\<not> collisionFree g (path ! i) (path ! k)"
        if "scan_back g path i (j - 1) < k" "k \<le> j" for k
      proof (cases "k = j")
        case True
        then show ?thesis using False by simp
      next
        case False
        then have "k \<le> j - 1" using that by simp
        then show ?thesis using ih(4) that by blast
      qed
      then show ?thesis
        unfolding eq using ih by auto
    qed
  qed
qed


lemma scan_back_eqI:
  assumes "i \<le> j" "j \<le> m"
    and "i < j \<Longrightarrow> collisionFree g (P ! i) (P ! j)"
    and "\<And>k. j < k \<Longrightarrow> k \<le> m \<Longrightarrow> \<not> collisionFree g (P ! i) (P ! k)"
  shows "scan_back g P i m = j"
proof -
  let ?s = "scan_back g P i m"
  have im: "i \<le> m" using assms by simp
  note sp = scan_back_spec[OF im, of g P]
  have "\<not> ?s < j"
  proof
    assume lt: "?s < j"
    then have "i < j" using sp by linarith
    then have "collisionFree g (P ! i) (P ! j)" by (rule assms(3))
    moreover have "\<not> collisionFree g (P ! i) (P ! j)" using sp lt assms(2) by blast
    ultimately show False by simp
  qed
  moreover have "\<not> j < ?s"
  proof
    assume lt: "j < ?s"
    then have "i < ?s" using assms(1) by simp
    then have "collisionFree g (P ! i) (P ! ?s)" using sp by blast
    moreover have "\<not> collisionFree g (P ! i) (P ! ?s)" using assms(4)[OF lt] sp by blast
    ultimately show False by simp
  qed
  ultimately show ?thesis by simp
qed

lemma scan_back_gt_iff:
  assumes "i \<le> m"
  shows "i < scan_back g P i m \<longleftrightarrow> (\<exists>j. i < j \<and> j \<le> m \<and> collisionFree g (P ! i) (P ! j))"
proof
  assume "i < scan_back g P i m"
  then show "\<exists>j. i < j \<and> j \<le> m \<and> collisionFree g (P ! i) (P ! j)"
    using scan_back_spec[OF assms, of g P] by blast
next
  assume "\<exists>j. i < j \<and> j \<le> m \<and> collisionFree g (P ! i) (P ! j)"
  then obtain j where j: "i < j" "j \<le> m" "collisionFree g (P ! i) (P ! j)" by blast
  show "i < scan_back g P i m"
  proof (rule ccontr)
    assume "\<not> i < scan_back g P i m"
    then have "scan_back g P i m < j" using scan_back_spec[OF assms, of g P] j(1) by linarith
    then show False using scan_back_spec[OF assms, of g P] j by blast
  qed
qed

lemma smooth_loop_greedy_chain:
  "greedy_chain g path i js \<Longrightarrow> smooth_loop g path i sm = Some (sm @ map ((!) path) js)"
proof (induction js arbitrary: i sm)
  case Nil
  then show ?case by (subst smooth_loop.simps) simp
next
  case (Cons b js)
  from Cons.prems have a: "i < length path - 1"
    and b: "scan_back g path i (length path - 1) = b"
    and gc: "greedy_chain g path b js" by auto
  have "smooth_loop g path i sm = smooth_loop g path b (sm @ [path ! b])"
    by (subst smooth_loop.simps) (simp only: a b if_True Let_def)
  also have "\<dots> = Some ((sm @ [path ! b]) @ map ((!) path) js)"
    using Cons.IH[OF gc] .
  finally show ?case by simp
qed

lemma chain_free_scan_back:
  assumes "chain_free g path" "i < length path - 1"
  shows "i < scan_back g path i (length path - 1)"
proof -
  have "i < Suc i \<and> Suc i \<le> length path - 1 \<and> collisionFree g (path ! i) (path ! Suc i)"
    using assms by (auto simp: chain_free_def)
  then show ?thesis
    using scan_back_gt_iff[of i "length path - 1" g path] assms(2) by (meson less_imp_le_nat)
qed

lemma greedy_chain_exists:
  "chain_free g path \<Longrightarrow> \<exists>js. greedy_chain g path i js"
proof (induction "length path - 1 - i" arbitrary: i rule: less_induct)
  case less
  show ?case
  proof (cases "i < length path - 1")
    case False
    then have "greedy_chain g path i []" by simp
    then show ?thesis by blast
  next
    case True
    let ?j = "scan_back g path i (length path - 1)"
    have gt: "i < ?j" using less.prems True by (rule chain_free_scan_back)
    have le: "?j \<le> length path - 1" using scan_back_spec[of i "length path - 1" g path] True by simp
    have "length path - 1 - ?j < length path - 1 - i" using gt le True by linarith
    from less.hyps[OF this less.prems] obtain js where "greedy_chain g path ?j js" by blast
    then have "greedy_chain g path i (?j # js)" using True gt by simp
    then show ?thesis by blast
  qed
qed

lemma smooth_loop_stuck:
  assumes "i < length path - 1" and "scan_back g path i (length path - 1) = i"
  shows "smooth_loop g path i sm = None"
proof (rule ccontr)
  assume "smooth_loop g path i sm \<noteq> None"
  then obtain r where r: "smooth_loop g path i sm = Some r" by auto
  have "\<not> (i < length path - 1 \<and> scan_back g path i (length path - 1) = i)"
  proof (rule smooth_loop.raw_induct
      [where P = "\<lambda>g path i sm y. \<not> (i < length path - 1 \<and> scan_back g path i (length path - 1) = i)",
        OF _ r])
    fix f g path i smoothed y
    assume ih: "\<And>g path i smoothed y. f g path i smoothed = Some y \<Longrightarrow>
        \<not> (i < length path - 1 \<and> scan_back g path i (length path - 1) = i)"
      and eq: "(if i < length path - 1
          then let j = scan_back g path i (length path - 1)
               in f g path j (smoothed @ [path ! j])
          else Some smoothed) = Some y"
    show "\<not> (i < length path - 1 \<and> scan_back g path i (length path - 1) = i)"
    proof
      assume st: "i < length path - 1 \<and> scan_back g path i (length path - 1) = i"
      with eq have "f g path i (smoothed @ [path ! i]) = Some y" by (simp add: Let_def)
      from ih[OF this] st show False by simp
    qed
  qed
  with assms show False by simp
qed

lemma greedy_chain_nth:
  "greedy_chain g path i js \<Longrightarrow> Suc k < length (i # js) \<Longrightarrow>
     (i # js) ! k < length path - 1
     \<and> (i # js) ! Suc k = scan_back g path ((i # js) ! k) (length path - 1)
     \<and> (i # js) ! k < (i # js) ! Suc k"
proof (induction js arbitrary: i k)
  case Nil
  then show ?case by simp
next
  case (Cons b js)
  show ?case
  proof (cases k)
    case 0
    then show ?thesis using Cons.prems by simp
  next
    case (Suc k')
    have "greedy_chain g path b js" using Cons.prems by auto
    moreover have "Suc k' < length (b # js)" using Cons.prems Suc by simp
    ultimately show ?thesis using Cons.IH[of b k'] Suc by simp
  qed
qed

lemma greedy_chain_sorted:
  "greedy_chain g path i js \<Longrightarrow> sorted_wrt (<) (i # js)"
proof (induction js arbitrary: i)
  case Nil
  then show ?case by simp
next
  case (Cons b js)
  then have "sorted_wrt (<) (b # js)" "i < b" by auto
  then show ?case by auto
qed

lemma greedy_chain_bound:
  "greedy_chain g path i js \<Longrightarrow> i < length path \<Longrightarrow> \<forall>j\<in>set (i # js). j < length path"
proof (induction js arbitrary: i)
  case Nil
  then show ?case by simp
next
  case (Cons b js)
  have "b \<le> length path - 1"
    using Cons.prems scan_back_spec[of i "length path - 1" g path] by auto
  then have "b < length path" using Cons.prems by linarith
  then show ?case using Cons by auto
qed

lemma greedy_chain_last:
  "greedy_chain g path i js \<Longrightarrow> i < length path \<Longrightarrow> last (i # js) = length path - 1"
proof (induction js arbitrary: i)
  case Nil
  then show ?case by simp
next
  case (Cons b js)
  have "b \<le> length path - 1"
    using Cons.prems scan_back_spec[of i "length path - 1" g path] by auto
  then have "b < length path" using Cons.prems by linarith
  then show ?case using Cons by auto
qed


lemma greedy_chain_upt:
  assumes "\<forall>k. k < length S - 1 \<longrightarrow> scan_back g S k (length S - 1) = Suc k"
  shows "m < length S \<Longrightarrow> greedy_chain g S m [Suc m..<length S]"
proof (induction "length S - m" arbitrary: m)
  case 0
  then show ?case by simp
next
  case (Suc d)
  show ?case
  proof (cases "m < length S - 1")
    case False
    then have "[Suc m..<length S] = []" by simp
    with False show ?thesis by simp
  next
    case True
    then have lt: "Suc m < length S" by simp
    have d: "d = length S - Suc m" using Suc.hyps(2) by simp
    have ih: "greedy_chain g S (Suc m) [Suc (Suc m)..<length S]"
      using Suc.hyps(1)[OF d lt] .
    have sc: "scan_back g S m (length S - 1) = Suc m" using assms True by blast
    have "[Suc m..<length S] = Suc m # [Suc (Suc m)..<length S]"
      using lt by (simp add: upt_conv_Cons)
    then show ?thesis using True sc ih by simp
  qed
qed

lemma greedy_chain_image_scan:
  assumes gc: "greedy_chain g path i js" and i: "i < length path"
    and k: "k < length (map ((!) path) (i # js)) - 1"
  shows "scan_back g (map ((!) path) (i # js)) k (length (map ((!) path) (i # js)) - 1) = Suc k"
proof -
  let ?J = "i # js"
  let ?S = "map ((!) path) ?J"
  have len: "length ?S = length ?J" by simp
  have kk: "Suc k < length ?J" using k by simp
  have srt: "sorted_wrt (<) ?J" using gc by (rule greedy_chain_sorted)
  have bnd: "\<forall>j\<in>set ?J. j < length path" using gc i by (rule greedy_chain_bound)
  have nthS: "?S ! l = path ! (?J ! l)" if "l < length ?J" for l
    using that by (rule nth_map)
  from greedy_chain_nth[OF gc kk]
  have a: "?J ! k < length path - 1"
    and b: "?J ! Suc k = scan_back g path (?J ! k) (length path - 1)"
    and c: "?J ! k < ?J ! Suc k" by auto
  have le: "?J ! k \<le> length path - 1" using a by simp
  note sp = scan_back_spec[OF le, of g path]
  have cf: "collisionFree g (path ! (?J ! k)) (path ! (?J ! Suc k))"
    using sp b c by metis
  show ?thesis
  proof (rule scan_back_eqI)
    show "k \<le> Suc k" by simp
    show "Suc k \<le> length ?S - 1" using kk by simp
    show "collisionFree g (?S ! k) (?S ! Suc k)"
      using cf nthS[of k] nthS[of "Suc k"] kk by simp
  next
    fix l assume l: "Suc k < l" "l \<le> length ?S - 1"
    then have ll: "l < length ?J" using kk by simp
    have "?J ! Suc k < ?J ! l" using srt l(1) ll by (rule sorted_wrt_nth_less)
    moreover have "?J ! l \<le> length path - 1"
      using bnd ll by (metis Suc_pred' less_Suc_eq_le less_nat_zero_code not_gr_zero nth_mem)
    ultimately have "\<not> collisionFree g (path ! (?J ! k)) (path ! (?J ! l))"
      using sp b by metis
    then show "\<not> collisionFree g (?S ! k) (?S ! l)"
      using nthS[of k] nthS[of l] kk ll by simp
  qed
qed

lemma strict_sorted_length_le:
  assumes "sorted_wrt (<) (J :: nat list)" "\<forall>j\<in>set J. j < n"
  shows "length J \<le> n"
proof -
  have "distinct J" using assms(1) by (simp add: strict_sorted_iff)
  then have "length J = card (set J)" by (simp add: distinct_card)
  also have "\<dots> \<le> card {..<n}" using assms(2) by (intro card_mono) auto
  finally show ?thesis by simp
qed

lemma shortcut_greedy_chain:
  assumes "path \<noteq> []" "greedy_chain g path 0 js"
  shows "shortcut g path = Some (map ((!) path) (0 # js))"
  using assms smooth_loop_greedy_chain[OF assms(2), of "[hd path]"]
  by (simp add: shortcut_def hd_conv_nth)

lemma shortcut_idem_chain:
  assumes ne: "path \<noteq> []" and gc: "greedy_chain g path 0 js"
  shows "shortcut g (map ((!) path) (0 # js)) = Some (map ((!) path) (0 # js))"
proof -
  let ?S = "map ((!) path) (0 # js)"
  have i: "0 < length path" using ne by simp
  have "\<forall>k. k < length ?S - 1 \<longrightarrow> scan_back g ?S k (length ?S - 1) = Suc k"
    using greedy_chain_image_scan[OF gc i] by blast
  then have "greedy_chain g ?S 0 [Suc 0..<length ?S]"
    by (rule greedy_chain_upt) simp
  then have "shortcut g ?S = Some (map ((!) ?S) (0 # [Suc 0..<length ?S]))"
    by (intro shortcut_greedy_chain) simp
  moreover have "0 < length ?S" by simp
  then have "[0..<length ?S] = 0 # [Suc 0..<length ?S]"
    by (rule upt_conv_Cons)
  ultimately have "shortcut g ?S = Some (map ((!) ?S) [0..<length ?S])"
    by (simp only:)
  then show ?thesis by (simp only: map_nth)
qed

section \<open>Properties of the planning loop\<close>

lemma dist_pt_nonneg: "0 \<le> dist_pt a b"
  by (simp add: dist_pt_def p_norm_def)

lemma dist_pt_sym: "dist_pt a b = dist_pt b a"
proof -
  have "(fst a - fst b) * (fst a - fst b) = (fst b - fst a) * (fst b - fst a)"
       "(snd a - snd b) * (snd a - snd b) = (snd b - snd a) * (snd b - snd a)"
    by (simp_all add: algebra_simps)
  then show ?thesis by (simp add: dist_pt_def p_norm_def p_sub_def)
qed

lemma choose_parent_from_ok:
  "parent_ok g tree newPt acc \<Longrightarrow> parent_ok g tree newPt (choose_parent_from g tree newPt radius j acc)"
proof (induction g tree newPt radius j acc rule: choose_parent_from.induct)
  case (1 g tree newPt radius j acc)
  show ?case
  proof (cases "j < length tree")
    case False
    then show ?thesis using "1.prems" by (subst choose_parent_from.simps) simp
  next
    case True
    note j = this
    show ?thesis
    proof (cases "dist_pt (point (tree ! j)) newPt < radius \<and> collisionFree g (point (tree ! j)) newPt")
      case False
      then show ?thesis
        using "1.IH"(3)[OF j False "1.prems"] j by (subst choose_parent_from.simps) auto
    next
      case True
      note near = this
      let ?c = "cost (tree ! j) + dist_pt (point (tree ! j)) newPt"
      show ?thesis
      proof (cases "?c < snd acc")
        case True
        have "parent_ok g tree newPt (int j, ?c)"
          using j near by (simp add: parent_ok_def)
        from "1.IH"(1)[OF j near refl True this] show ?thesis
          using j near True by (subst choose_parent_from.simps) (simp add: Let_def)
      next
        case False
        from "1.IH"(2)[OF j near refl False "1.prems"] show ?thesis
          using j near False by (subst choose_parent_from.simps) (simp add: Let_def)
      qed
    qed
  qed
qed

lemma rewire_from_length [simp]:
  "length (rewire_from g newPt bestCost radius newIdx j tree) = length tree"
proof (induction g newPt bestCost radius newIdx j tree rule: rewire_from.induct)
  case (1 g newPt bestCost radius newIdx j tree)
  then show ?case
    by (subst rewire_from.simps) (simp add: Let_def)
qed

lemma rewire_from_nth:
  "k < length tree \<Longrightarrow>
   rewire_from g newPt bestCost radius newIdx j tree ! k =
     (if j \<le> k \<and> rewired g newPt bestCost radius newIdx tree k
      then (tree ! k)\<lparr>parent := int newIdx, cost := bestCost + dist_pt newPt (point (tree ! k))\<rparr>
      else tree ! k)"
proof (induction g newPt bestCost radius newIdx j tree rule: rewire_from.induct)
  case (1 g newPt bestCost radius newIdx j tree)
  show ?case
  proof (cases "j < length tree")
    case False
    then show ?thesis using "1.prems" by (subst rewire_from.simps) simp
  next
    case True
    note j = this
    show ?thesis
    proof (cases "j = newIdx")
      case True
      from "1.IH"(1)[OF j True "1.prems"] show ?thesis
        using j True by (subst rewire_from.simps) (auto simp: rewired_def)
    next
      case False
      note ne = this
      show ?thesis
      proof (cases "rewired g newPt bestCost radius newIdx tree j")
        case True
        then have c: "dist_pt (point (tree ! j)) newPt < radius \<and> collisionFree g newPt (point (tree ! j))"
          and lt: "bestCost + dist_pt newPt (point (tree ! j)) < cost (tree ! j)"
          by (auto simp: rewired_def)
        let ?t = "tree[j := (tree ! j)\<lparr>parent := int newIdx, cost := bestCost + dist_pt newPt (point (tree ! j))\<rparr>]"
        have k: "k < length ?t" using "1.prems" by simp
        have eq: "rewire_from g newPt bestCost radius newIdx j tree
            = rewire_from g newPt bestCost radius newIdx (j + 1) ?t"
          using j ne c lt by (subst rewire_from.simps) (simp add: Let_def)
        have rw: "rewired g newPt bestCost radius newIdx ?t k = rewired g newPt bestCost radius newIdx tree k"
          if "k \<noteq> j"
          using that by (simp add: rewired_def)
        show ?thesis
          unfolding eq "1.IH"(2)[OF j ne c refl lt k]
          using True j "1.prems" by (cases "k = j") (auto simp: rw)
      next
        case False
        have eq: "rewire_from g newPt bestCost radius newIdx j tree
            = rewire_from g newPt bestCost radius newIdx (j + 1) tree"
          using j ne False by (subst rewire_from.simps) (auto simp: Let_def rewired_def)
        have ih: "rewire_from g newPt bestCost radius newIdx (j + 1) tree ! k =
           (if j + 1 \<le> k \<and> rewired g newPt bestCost radius newIdx tree k
            then (tree ! k)\<lparr>parent := int newIdx, cost := bestCost + dist_pt newPt (point (tree ! k))\<rparr>
            else tree ! k)"
        proof (cases "dist_pt (point (tree ! j)) newPt < radius \<and> collisionFree g newPt (point (tree ! j))")
          case True
          then have "\<not> bestCost + dist_pt newPt (point (tree ! j)) < cost (tree ! j)"
            using False ne by (auto simp: rewired_def)
          from "1.IH"(3)[OF j ne True refl this "1.prems"] show ?thesis .
        next
          case False
          from "1.IH"(4)[OF j ne False "1.prems"] show ?thesis .
        qed
        show ?thesis unfolding eq ih using False by (cases "k = j") auto
      qed
    qed
  qed
qed

lemma iteration_cases:
  assumes "iteration g rnd i tree = Some r"
  obtains (skip) "r = Continue tree"
  | (insert) k newPt bp bc where
      "k < length tree" "isInsideGrid g newPt"
      "parent_ok g tree newPt (int k, cost (tree ! k) + dist_pt (point (tree ! k)) newPt)"
      "(bp, bc) = choose_parent_from g tree newPt (near_radius (length tree)) 0
                    (int k, cost (tree ! k) + dist_pt (point (tree ! k)) newPt)"
      "r = (if dist_pt newPt (goalPt g) < real_of_int (cellSize g) * (6 / 10)
            then Break (grow g tree newPt bp bc) (int (length tree))
            else Continue (grow g tree newPt bp bc))"
proof -
  define randPt where "randPt = (if i mod 5 = 0 then goalPt g else clampToGrid (rnd i))"
  define nb where "nb = nearest_from tree randPt 0 (- 1, 1000000000)"
  define nearPt where "nearPt = point (tree ! nat (fst nb))"
  define dir where "dir = p_sub randPt nearPt"
  define newPt where "newPt = clampToGrid (p_add nearPt (p_scale dir (min 50 (snd nb) / p_norm dir)))"
  define acc where "acc = choose_parent_from g tree newPt (near_radius (length tree)) 0
       (fst nb, cost (tree ! nat (fst nb)) + dist_pt nearPt newPt)"
  have it: "iteration g rnd i tree =
     (if \<not> isInsideGrid g randPt \<or> isObstacle g randPt then Some (Continue tree)
      else if fst nb < 0 \<or> fst nb \<ge> int (length tree) then None
      else if p_norm dir = 0 then Some (Continue tree)
      else if \<not> isInsideGrid g newPt \<or> \<not> collisionFree g nearPt newPt then Some (Continue tree)
      else if dist_pt newPt (goalPt g) < real_of_int (cellSize g) * (6 / 10)
           then Some (Break (grow g tree newPt (fst acc) (snd acc)) (int (length tree)))
           else Some (Continue (grow g tree newPt (fst acc) (snd acc))))"
    unfolding iteration_def randPt_def nb_def nearPt_def dir_def newPt_def acc_def grow_def
    by (simp only: Let_def case_prod_beta)
  show ?thesis
  proof (cases "r = Continue tree")
    case True
    then show ?thesis by (rule skip)
  next
    case False
    with assms it have c: "isInsideGrid g randPt" "0 \<le> fst nb" "fst nb < int (length tree)"
      "isInsideGrid g newPt" "collisionFree g nearPt newPt"
      and r: "r = (if dist_pt newPt (goalPt g) < real_of_int (cellSize g) * (6 / 10)
           then Break (grow g tree newPt (fst acc) (snd acc)) (int (length tree))
           else Continue (grow g tree newPt (fst acc) (snd acc)))"
      by (auto split: if_splits)
    define k where "k = nat (fst nb)"
    have k: "k < length tree" "fst nb = int k" using c by (simp_all add: k_def)
    have np: "nearPt = point (tree ! k)" by (simp add: nearPt_def k_def)
    show ?thesis
    proof (rule insert[of k newPt "fst acc" "snd acc"])
      show "k < length tree" by fact
      show "isInsideGrid g newPt" by fact
      show "parent_ok g tree newPt (int k, cost (tree ! k) + dist_pt (point (tree ! k)) newPt)"
        using c k np by (simp add: parent_ok_def)
      show "(fst acc, snd acc) = choose_parent_from g tree newPt (near_radius (length tree)) 0
                    (int k, cost (tree ! k) + dist_pt (point (tree ! k)) newPt)"
        using k np by (simp add: acc_def)
      show "r = (if dist_pt newPt (goalPt g) < real_of_int (cellSize g) * (6 / 10)
            then Break (grow g tree newPt (fst acc) (snd acc)) (int (length tree))
            else Continue (grow g tree newPt (fst acc) (snd acc)))" by fact
    qed
  qed
qed

lemma walk_bounded_sentinel [simp]: "walk_bounded tree k (- 1)"
  by (cases k) simp_all

lemma walk_bounded_valid:
  "walk_bounded tree k a \<Longrightarrow> a \<noteq> - 1 \<Longrightarrow> 0 \<le> a \<and> a < int (length tree) \<and> k \<noteq> 0"
  by (cases k) (auto split: if_splits)

lemma walk_bounded_step:
  "a \<noteq> - 1 \<Longrightarrow> 0 \<le> a \<Longrightarrow> a < int (length tree) \<Longrightarrow>
     walk_bounded tree (Suc k) a = walk_bounded tree k (parent (tree ! nat a))"
  by simp

lemma walk_bounded_mono: "walk_bounded tree k a \<Longrightarrow> walk_bounded tree (Suc k) a"
proof (induction k arbitrary: a)
  case 0
  then show ?case by simp
next
  case (Suc k)
  show ?case
  proof (cases "a = - 1")
    case True
    then show ?thesis by simp
  next
    case False
    with Suc.prems have v: "0 \<le> a" "a < int (length tree)"
      using walk_bounded_valid by blast+
    from Suc.prems False v have "walk_bounded tree k (parent (tree ! nat a))" by simp
    then have "walk_bounded tree (Suc k) (parent (tree ! nat a))" by (rule Suc.IH)
    then show ?thesis using False v by (subst walk_bounded_step) auto
  qed
qed

lemma walk_bounded_le: "walk_bounded tree k a \<Longrightarrow> k \<le> m \<Longrightarrow> walk_bounded tree m a"
proof (induction m)
  case 0
  then show ?case by simp
next
  case (Suc m)
  show ?case
  proof (cases "k = Suc m")
    case True
    then show ?thesis using Suc.prems by simp
  next
    case False
    then have "k \<le> m" using Suc.prems by simp
    then have "walk_bounded tree m a" using Suc by blast
    then show ?thesis by (rule walk_bounded_mono)
  qed
qed

lemma grow_length [simp]: "length (grow g tree newPt bp bc) = Suc (length tree)"
  by (simp add: grow_def)

lemma grow_new:
  "grow g tree newPt bp bc ! length tree = \<lparr>point = newPt, parent = bp, cost = bc\<rparr>"
  by (simp add: grow_def rewire_from_nth rewired_def)

lemma grow_old:
  assumes "k < length tree"
  shows "grow g tree newPt bp bc ! k = tree ! k
     \<or> (grow g tree newPt bp bc ! k
           = (tree ! k)\<lparr>parent := int (length tree), cost := bc + dist_pt newPt (point (tree ! k))\<rparr>
         \<and> bc + dist_pt newPt (point (tree ! k)) < cost (tree ! k)
         \<and> collisionFree g newPt (point (tree ! k)))"
  using assms by (simp add: grow_def rewire_from_nth rewired_def nth_append)

lemma grow_point: "k < length tree \<Longrightarrow> point (grow g tree newPt bp bc ! k) = point (tree ! k)"
  using grow_old[of k tree g newPt bp bc] by auto

lemma grow_cost_le: "k < length tree \<Longrightarrow> cost (grow g tree newPt bp bc ! k) \<le> cost (tree ! k)"
  using grow_old[of k tree g newPt bp bc] by auto

lemma grow_keep:
  "k < length tree \<Longrightarrow> cost (tree ! k) \<le> bc \<Longrightarrow> grow g tree newPt bp bc ! k = tree ! k"
  using grow_old[of k tree g newPt bp bc] dist_pt_nonneg[of newPt "point (tree ! k)"] by auto

lemma tree_inv_parent_cost:
  assumes "tree_inv g tree" "0 < j" "j < length tree"
  shows "cost (tree ! nat (parent (tree ! j))) \<le> cost (tree ! j)"
proof -
  have "cost_ge tree j" using assms by (simp add: tree_inv_def)
  then show ?thesis
    using dist_pt_nonneg[of "point (tree ! j)" "point (tree ! nat (parent (tree ! j)))"]
    by (simp add: cost_ge_def)
qed

lemma walk_bounded_grow_keep:
  assumes inv: "tree_inv g tree"
  shows "walk_bounded tree k a \<Longrightarrow> (a \<noteq> - 1 \<Longrightarrow> cost (tree ! nat a) \<le> bc) \<Longrightarrow>
     walk_bounded (grow g tree newPt bp bc) k a"
proof (induction k arbitrary: a)
  case 0
  then show ?case by simp
next
  case (Suc k)
  show ?case
  proof (cases "a = - 1")
    case True
    then show ?thesis by simp
  next
    case False
    with Suc.prems(1) have v: "0 \<le> a" "a < int (length tree)"
      using walk_bounded_valid by blast+
    let ?j = "nat a"
    let ?p = "parent (tree ! ?j)"
    have j: "?j < length tree" using v by simp
    have c: "cost (tree ! ?j) \<le> bc" using Suc.prems(2) False by simp
    have keep: "grow g tree newPt bp bc ! ?j = tree ! ?j" using j c by (rule grow_keep)
    have w: "walk_bounded tree k ?p" using Suc.prems(1) False v by simp
    have "cost (tree ! nat ?p) \<le> bc" if "?p \<noteq> - 1"
    proof -
      have "?j \<noteq> 0" using inv that by (auto simp: tree_inv_def)
      then have "cost (tree ! nat ?p) \<le> cost (tree ! ?j)"
        using tree_inv_parent_cost[OF inv _ j] by simp
      then show ?thesis using c by simp
    qed
    with w have "walk_bounded (grow g tree newPt bp bc) k ?p" by (rule Suc.IH)
    then show ?thesis using False v keep by simp
  qed
qed

lemma walk_bounded_grow_old:
  assumes new: "walk_bounded (grow g tree newPt bp bc) kn (int (length tree))"
  shows "walk_bounded tree k a \<Longrightarrow> \<exists>k'. walk_bounded (grow g tree newPt bp bc) k' a"
proof (induction k arbitrary: a)
  case 0
  then have "walk_bounded (grow g tree newPt bp bc) 0 a" by simp
  then show ?case by blast
next
  case (Suc k)
  show ?case
  proof (cases "a = - 1")
    case True
    then have "walk_bounded (grow g tree newPt bp bc) 0 a" by simp
    then show ?thesis by blast
  next
    case False
    with Suc.prems(1) have v: "0 \<le> a" "a < int (length tree)"
      using walk_bounded_valid by blast+
    let ?j = "nat a"
    let ?G = "grow g tree newPt bp bc"
    have j: "?j < length tree" using v by simp
    from grow_old[OF j, of g newPt bp bc] show ?thesis
    proof
      assume keep: "?G ! ?j = tree ! ?j"
      have "walk_bounded tree k (parent (tree ! ?j))" using Suc.prems(1) False v by simp
      from Suc.IH[OF this] obtain k' where "walk_bounded ?G k' (parent (tree ! ?j))" by blast
      then have "walk_bounded ?G (Suc k') a" using False v keep by simp
      then show ?thesis by blast
    next
      assume "?G ! ?j = (tree ! ?j)\<lparr>parent := int (length tree),
                cost := bc + dist_pt newPt (point (tree ! ?j))\<rparr>
         \<and> bc + dist_pt newPt (point (tree ! ?j)) < cost (tree ! ?j)
         \<and> collisionFree g newPt (point (tree ! ?j))"
      then have "parent (?G ! ?j) = int (length tree)" by simp
      then have "walk_bounded ?G (Suc kn) a" using False v new by simp
      then show ?thesis by blast
    qed
  qed
qed

lemma tree_inv_grow:
  assumes inv: "tree_inv g tree" and pok: "parent_ok g tree newPt (bp, bc)"
  shows "tree_inv g (grow g tree newPt bp bc)"
proof -
  let ?G = "grow g tree newPt bp bc"
  let ?n = "length tree"
  have ne: "tree \<noteq> []" and root: "parent (tree ! 0) = - 1" "cost (tree ! 0) = 0"
    and nonneg: "\<And>j. j < ?n \<Longrightarrow> 0 \<le> cost (tree ! j)"
    and edge: "\<And>j. 0 < j \<Longrightarrow> j < ?n \<Longrightarrow>
        0 \<le> parent (tree ! j) \<and> parent (tree ! j) < int ?n \<and> cost_ge tree j
        \<and> collisionFree g (point (tree ! nat (parent (tree ! j)))) (point (tree ! j))"
    and reach: "\<And>j. j < ?n \<Longrightarrow> \<exists>k. walk_bounded tree k (int j)"
    using inv by (auto simp: tree_inv_def)
  have n0: "0 < ?n" using ne by simp
  have bp: "0 \<le> bp" "bp < int ?n"
    and bc: "bc = cost (tree ! nat bp) + dist_pt (point (tree ! nat bp)) newPt"
    and bcf: "collisionFree g (point (tree ! nat bp)) newPt"
    using pok by (auto simp: parent_ok_def)
  have nbp: "nat bp < ?n" using bp by simp
  have bp_le: "cost (tree ! nat bp) \<le> bc"
    using bc dist_pt_nonneg[of "point (tree ! nat bp)" newPt] by simp
  have bc0: "0 \<le> bc" using bp_le nonneg[OF nbp] by simp
  have keep_bp: "?G ! nat bp = tree ! nat bp" using nbp bp_le by (rule grow_keep)
  have keep0: "?G ! 0 = tree ! 0" using n0 bc0 root by (intro grow_keep) simp_all
  have new: "?G ! ?n = \<lparr>point = newPt, parent = bp, cost = bc\<rparr>" by (rule grow_new)
  have c1: "?G \<noteq> []" by (metis grow_length length_0_conv nat.distinct(1))
  have c2: "parent (?G ! 0) = - 1" "cost (?G ! 0) = 0" using keep0 root by simp_all
  have c3: "0 \<le> cost (?G ! j)" if "j < length ?G" for j
  proof (cases "j = ?n")
    case True
    then show ?thesis using new bc0 by simp
  next
    case False
    then have j: "j < ?n" using that by simp
    from grow_old[OF j, of g newPt bp bc] show ?thesis
      using nonneg[OF j] bc0 dist_pt_nonneg[of newPt "point (tree ! j)"] by auto
  qed
  have c4: "0 \<le> parent (?G ! j) \<and> parent (?G ! j) < int (length ?G) \<and> cost_ge ?G j
        \<and> collisionFree g (point (?G ! nat (parent (?G ! j)))) (point (?G ! j))"
    if "0 < j" "j < length ?G" for j
  proof (cases "j = ?n")
    case True
    have "cost_ge ?G ?n"
      using new keep_bp bc dist_pt_sym[of newPt "point (tree ! nat bp)"]
      by (simp add: cost_ge_def)
    then show ?thesis using True new keep_bp bp bcf by simp
  next
    case False
    then have j: "j < ?n" using that by simp
    from grow_old[OF j, of g newPt bp bc] show ?thesis
    proof
      assume keep: "?G ! j = tree ! j"
      let ?p = "nat (parent (tree ! j))"
      from edge[OF that(1) j] have e: "0 \<le> parent (tree ! j)" "parent (tree ! j) < int ?n"
        "cost_ge tree j" "collisionFree g (point (tree ! ?p)) (point (tree ! j))" by auto
      have p: "?p < ?n" using e by simp
      have "cost (?G ! ?p) \<le> cost (tree ! ?p)" using p by (rule grow_cost_le)
      then have "cost_ge ?G j"
        using e(3) keep grow_point[OF p, of g newPt bp bc] by (simp add: cost_ge_def)
      then show ?thesis using keep e grow_point[OF p, of g newPt bp bc] by simp
    next
      assume rw: "?G ! j = (tree ! j)\<lparr>parent := int ?n, cost := bc + dist_pt newPt (point (tree ! j))\<rparr>
         \<and> bc + dist_pt newPt (point (tree ! j)) < cost (tree ! j)
         \<and> collisionFree g newPt (point (tree ! j))"
      then have "cost_ge ?G j"
        using new dist_pt_sym[of newPt "point (tree ! j)"] by (simp add: cost_ge_def)
      then show ?thesis using rw new by simp
    qed
  qed
  have c5: "\<exists>k. walk_bounded ?G k (int j)" if "j < length ?G" for j
  proof -
    from reach[OF nbp] obtain kb where "walk_bounded tree kb (int (nat bp))" by blast
    then have "walk_bounded tree kb bp" using bp by simp
    then have "walk_bounded ?G kb bp"
      using bp_le by (intro walk_bounded_grow_keep[OF inv]) simp_all
    then have wn: "walk_bounded ?G (Suc kb) (int ?n)" using new by simp
    show ?thesis
    proof (cases "j = ?n")
      case True
      then show ?thesis using wn by blast
    next
      case False
      then have j: "j < ?n" using that by simp
      from reach[OF j] obtain k where "walk_bounded tree k (int j)" by blast
      then show ?thesis by (rule walk_bounded_grow_old[OF wn])
    qed
  qed
  show ?thesis
    unfolding tree_inv_def using c1 c2 c3 c4 c5 by blast
qed

lemma grow_cost_eq:
  assumes inv: "tree_inv g tree" and pok: "parent_ok g tree newPt (bp, bc)"
    and j: "j < length (grow g tree newPt bp bc)"
    and ch: "j \<ge> length tree \<or> parent (grow g tree newPt bp bc ! j) \<noteq> parent (tree ! j)"
  shows "cost_eq (grow g tree newPt bp bc) j"
proof -
  let ?G = "grow g tree newPt bp bc"
  let ?n = "length tree"
  have new: "?G ! ?n = \<lparr>point = newPt, parent = bp, cost = bc\<rparr>" by (rule grow_new)
  have bp: "0 \<le> bp" "bp < int ?n"
    and bc: "bc = cost (tree ! nat bp) + dist_pt (point (tree ! nat bp)) newPt"
    using pok by (auto simp: parent_ok_def)
  have nbp: "nat bp < ?n" using bp by simp
  have bp_le: "cost (tree ! nat bp) \<le> bc"
    using bc dist_pt_nonneg[of "point (tree ! nat bp)" newPt] by simp
  have keep_bp: "?G ! nat bp = tree ! nat bp" using nbp bp_le by (rule grow_keep)
  show ?thesis
  proof (cases "j = ?n")
    case True
    then show ?thesis
      using new keep_bp bc dist_pt_sym[of newPt "point (tree ! nat bp)"]
      by (simp add: cost_eq_def)
  next
    case False
    then have jn: "j < ?n" using j by simp
    with ch have "parent (?G ! j) \<noteq> parent (tree ! j)" by simp
    with grow_old[OF jn, of g newPt bp bc]
    have "?G ! j = (tree ! j)\<lparr>parent := int ?n, cost := bc + dist_pt newPt (point (tree ! j))\<rparr>"
      by auto
    then show ?thesis
      using new dist_pt_sym[of newPt "point (tree ! j)"] by (simp add: cost_eq_def)
  qed
qed

lemma tree_inv_init: "tree_inv g (init_tree g)"
proof -
  have w: "walk_bounded (init_tree g) (Suc 0) (int 0)" by (simp add: init_tree_def)
  have "\<exists>k. walk_bounded (init_tree g) k (int j)" if "j < length (init_tree g)" for j
  proof -
    have "j = 0" using that by (simp add: init_tree_def)
    then show ?thesis using w by blast
  qed
  then show ?thesis by (auto simp: tree_inv_def init_tree_def)
qed

lemma tree_inv_iteration:
  assumes "tree_inv g tree" "iteration g rnd i tree = Some r"
  shows "tree_inv g (tree_of r)"
  using assms(2)
proof (cases rule: iteration_cases)
  case skip
  then show ?thesis using assms(1) by simp
next
  case (insert k newPt bp bc)
  have "parent_ok g tree newPt (bp, bc)"
    unfolding insert(4) by (rule choose_parent_from_ok) (rule insert(3))
  with assms(1) have "tree_inv g (grow g tree newPt bp bc)" by (rule tree_inv_grow)
  then show ?thesis using insert(5) by simp
qed

lemma rrt_loop_tree_inv:
  "tree_inv g tree \<Longrightarrow> rrt_loop g rnd m i tree = Some (t, gi, n) \<Longrightarrow> tree_inv g t"
proof (induction g rnd m i tree rule: rrt_loop.induct)
  case (1 g rnd maxIter i tree)
  show ?case
  proof (cases "i < maxIter")
    case False
    then show ?thesis using "1.prems" by (subst (asm) rrt_loop.simps) simp
  next
    case True
    with "1.prems"(2) obtain r where r: "iteration g rnd i tree = Some r"
      by (subst (asm) rrt_loop.simps) (auto split: option.splits)
    have inv: "tree_inv g (tree_of r)" using "1.prems"(1) r by (rule tree_inv_iteration)
    show ?thesis
    proof (cases r)
      case (Continue t')
      then have "rrt_loop g rnd maxIter (i + 1) t' = Some (t, gi, n)"
        using "1.prems"(2) True r by (subst (asm) rrt_loop.simps) simp
      moreover have "tree_inv g t'" using inv Continue by simp
      ultimately show ?thesis using "1.IH"[OF True r Continue] by blast
    next
      case (Break t' gi')
      then have "t = t'" using "1.prems"(2) True r by (subst (asm) rrt_loop.simps) simp
      then show ?thesis using inv Break by simp
    qed
  qed
qed

lemma walk_bounded_length:
  assumes "walk_bounded tree k a"
  shows "walk_bounded tree (length tree) a"
proof (cases "a = - 1")
  case True
  then show ?thesis by simp
next
  case False
  define D where "D b = (LEAST m. walk_bounded tree m b)" for b
  define V where "V = {b. 0 \<le> b \<and> b < int (length tree) \<and> (\<exists>m. walk_bounded tree m b)}"
  have finV: "finite V" and cardV: "card V \<le> length tree"
  proof -
    have sub: "V \<subseteq> {0..<int (length tree)}" by (auto simp: V_def)
    then show "finite V" by (rule finite_subset) simp
    have "card V \<le> card {0..<int (length tree)}" using sub by (intro card_mono) simp_all
    then show "card V \<le> length tree" by simp
  qed
  have D_sentinel: "D (- 1) = 0" by (simp add: D_def)
  have D_step: "D b = Suc (D (parent (tree ! nat b)))" if "b \<in> V" for b
  proof -
    from that obtain m where b: "0 \<le> b" "b < int (length tree)" and m: "walk_bounded tree m b"
      by (auto simp: V_def)
    have "\<not> walk_bounded tree 0 b" using b by simp
    with m have "(LEAST m. walk_bounded tree m b) = Suc (LEAST m. walk_bounded tree (Suc m) b)"
      by (rule Least_Suc)
    moreover have "walk_bounded tree (Suc m) b = walk_bounded tree m (parent (tree ! nat b))" for m
      using b by (intro walk_bounded_step) auto
    ultimately show ?thesis by (simp add: D_def)
  qed
  have img: "{1..D b} \<subseteq> D ` V" if "walk_bounded tree m b" "b \<noteq> - 1" for m b
    using that
  proof (induction m arbitrary: b)
    case 0
    then show ?case by simp
  next
    case (Suc m)
    have v: "0 \<le> b" "b < int (length tree)"
      using walk_bounded_valid[OF Suc.prems] by auto
    have bV: "b \<in> V" unfolding V_def using v Suc.prems(1) by blast
    let ?p = "parent (tree ! nat b)"
    have w: "walk_bounded tree m ?p" using Suc.prems v by simp
    have Db: "D b = Suc (D ?p)" using bV by (rule D_step)
    show ?case
    proof (cases "?p = - 1")
      case True
      then have "D b = 1" using Db D_sentinel by simp
      then have "{1..D b} = {D b}" by simp
      then show ?thesis using bV by auto
    next
      case False
      from Suc.IH[OF w False] have ih: "{1..D ?p} \<subseteq> D ` V" .
      have "{1..D b} = insert (D b) {1..D ?p}" unfolding Db by auto
      then show ?thesis using ih bV by auto
    qed
  qed
  have "D a = card {1..D a}" by simp
  also have "\<dots> \<le> card (D ` V)"
    using img[OF assms False] finV by (intro card_mono) simp_all
  also have "\<dots> \<le> card V" using finV by (rule card_image_le)
  finally have "D a \<le> length tree" using cardV by simp
  moreover have "walk_bounded tree (D a) a"
    unfolding D_def using assms by (rule LeastI)
  ultimately show ?thesis by (rule walk_bounded_le[rotated])
qed

lemma tree_inv_walk:
  "tree_inv g tree \<Longrightarrow> j < length tree \<Longrightarrow> walk_bounded tree (length tree) (int j)"
  using walk_bounded_length by (auto simp: tree_inv_def)

lemma walk_parents_sentinel: "walk_parents tree (- 1) acc = Some acc"
  by (subst walk_parents.simps) simp

lemma walk_parents_step:
  "a \<noteq> - 1 \<Longrightarrow> 0 \<le> a \<Longrightarrow> a < int (length tree) \<Longrightarrow>
     walk_parents tree a acc = walk_parents tree (parent (tree ! nat a)) (acc @ [point (tree ! nat a)])"
  by (subst walk_parents.simps) simp

lemma walk_parents_bounded:
  assumes inv: "tree_inv g tree"
  shows "walk_bounded tree k a \<Longrightarrow>
     \<exists>path. (\<forall>acc. walk_parents tree a acc = Some (acc @ path))
        \<and> (a \<noteq> - 1 \<longrightarrow> path \<noteq> [] \<and> hd path = point (tree ! nat a))
        \<and> (\<forall>i. Suc i < length path \<longrightarrow> collisionFree g (path ! Suc i) (path ! i))"
proof (induction k arbitrary: a)
  case 0
  then have "a = - 1" by simp
  then have "(\<forall>acc. walk_parents tree a acc = Some (acc @ []))
        \<and> (a \<noteq> - 1 \<longrightarrow> [] \<noteq> [] \<and> hd [] = point (tree ! nat a))
        \<and> (\<forall>i. Suc i < length ([] :: point2f list) \<longrightarrow> collisionFree g ([] ! Suc i) ([] ! i))"
    by (simp add: walk_parents_sentinel)
  then show ?case by blast
next
  case (Suc k)
  show ?case
  proof (cases "a = - 1")
    case True
    then have "(\<forall>acc. walk_parents tree a acc = Some (acc @ []))
        \<and> (a \<noteq> - 1 \<longrightarrow> [] \<noteq> [] \<and> hd [] = point (tree ! nat a))
        \<and> (\<forall>i. Suc i < length ([] :: point2f list) \<longrightarrow> collisionFree g ([] ! Suc i) ([] ! i))"
      by (simp add: walk_parents_sentinel)
    then show ?thesis by blast
  next
    case False
    have v: "0 \<le> a" "a < int (length tree)"
      using walk_bounded_valid[OF Suc.prems False] by auto
    let ?j = "nat a"
    let ?p = "parent (tree ! ?j)"
    let ?pt = "point (tree ! ?j)"
    have j: "?j < length tree" using v by simp
    have "walk_bounded tree k ?p" using Suc.prems False v by simp
    from Suc.IH[OF this] obtain path where
      wp: "\<And>acc. walk_parents tree ?p acc = Some (acc @ path)"
      and hd: "?p \<noteq> - 1 \<Longrightarrow> path \<noteq> [] \<and> hd path = point (tree ! nat ?p)"
      and ch: "\<And>i. Suc i < length path \<Longrightarrow> collisionFree g (path ! Suc i) (path ! i)"
      by blast
    have a1: "walk_parents tree a acc = Some (acc @ (?pt # path))" for acc
      using walk_parents_step[OF False v] wp by simp
    have a3: "collisionFree g ((?pt # path) ! Suc i) ((?pt # path) ! i)"
      if i: "Suc i < length (?pt # path)" for i
    proof (cases i)
      case (Suc i')
      then show ?thesis using ch[of i'] i by simp
    next
      case 0
      have pne: "path \<noteq> []" using i 0 by auto
      have "?p \<noteq> - 1"
      proof
        assume "?p = - 1"
        then have "walk_parents tree ?p [] = Some []" by (simp add: walk_parents_sentinel)
        with wp[of "[]"] pne show False by simp
      qed
      then have h: "hd path = point (tree ! nat ?p)" and j0: "0 < ?j"
        using hd inv by (auto simp: tree_inv_def intro: gr0I)
      have "collisionFree g (point (tree ! nat ?p)) ?pt"
        using inv j0 j by (simp add: tree_inv_def)
      then show ?thesis using 0 h pne by (simp add: hd_conv_nth)
    qed
    have "(\<forall>acc. walk_parents tree a acc = Some (acc @ (?pt # path)))
        \<and> (a \<noteq> - 1 \<longrightarrow> ?pt # path \<noteq> [] \<and> hd (?pt # path) = point (tree ! nat a))
        \<and> (\<forall>i. Suc i < length (?pt # path) \<longrightarrow> collisionFree g ((?pt # path) ! Suc i) ((?pt # path) ! i))"
      using a1 a3 by simp
    then show ?thesis by blast
  qed
qed

lemma chain_free_rev:
  assumes "\<And>i. Suc i < length path \<Longrightarrow> collisionFree g (path ! Suc i) (path ! i)"
  shows "chain_free g (rev path)"
  unfolding chain_free_def
proof (intro allI impI)
  fix k assume k: "Suc k < length (rev path)"
  then have kk: "Suc k < length path" by simp
  define i where "i = length path - Suc (Suc k)"
  have i: "Suc i < length path" "Suc i = length path - Suc k" using kk by (simp_all add: i_def)
  have "rev path ! k = path ! Suc i" using kk i by (simp add: rev_nth)
  moreover have "rev path ! Suc k = path ! i" using kk by (simp add: rev_nth i_def)
  ultimately show "collisionFree g (rev path ! k) (rev path ! Suc k)"
    using assms[OF i(1)] by simp
qed

lemma tree_inv_raw_path:
  assumes inv: "tree_inv g tree" and j: "j < length tree"
  shows "\<exists>raw. walk_parents tree (int j) [] = Some (rev raw) \<and> raw \<noteq> []
           \<and> last raw = point (tree ! j) \<and> chain_free g raw"
proof -
  from inv j obtain k where "walk_bounded tree k (int j)" by (auto simp: tree_inv_def)
  from walk_parents_bounded[OF inv this] obtain path where
    wp: "\<And>acc. walk_parents tree (int j) acc = Some (acc @ path)"
    and hd: "path \<noteq> []" "hd path = point (tree ! j)"
    and ch: "\<And>i. Suc i < length path \<Longrightarrow> collisionFree g (path ! Suc i) (path ! i)"
    by auto
  have "walk_parents tree (int j) [] = Some (rev (rev path))" using wp[of "[]"] by simp
  moreover have "rev path \<noteq> []" using hd by simp
  moreover have "last (rev path) = point (tree ! j)" using hd by (simp add: last_rev)
  moreover have "chain_free g (rev path)" using ch by (rule chain_free_rev)
  ultimately show ?thesis by blast
qed













lemma iteration_capture:
  assumes nc: "no_capture g tree" and ne: "tree \<noteq> []" and it: "iteration g rnd i tree = Some r"
  shows "(\<exists>t. r = Continue t \<and> t \<noteq> [] \<and> no_capture g t)
       \<or> (\<exists>t. r = Break t (int (length t) - 1) \<and> 1 < length t
             \<and> captured g (point (last t))
             \<and> (\<forall>j. 0 < j \<and> j < length t - 1 \<longrightarrow> \<not> captured g (point (t ! j))))"
  using it
proof (cases rule: iteration_cases)
  case skip
  then show ?thesis using nc ne by simp
next
  case (insert k newPt bp bc)
  let ?G = "grow g tree newPt bp bc"
  have old: "\<not> captured g (point (?G ! j))" if "0 < j" "j < length tree" for j
    using that nc by (simp add: grow_point no_capture_def)
  have lastG: "point (last ?G) = newPt"
  proof -
    have "last ?G = ?G ! length tree"
      by (metis diff_Suc_1 grow_length last_conv_nth length_0_conv nat.distinct(1))
    then show ?thesis by (simp add: grow_new)
  qed
  show ?thesis
  proof (cases "captured g newPt")
    case True
    then have "r = Break ?G (int (length ?G) - 1)" using insert(5) by (simp add: captured_def)
    moreover have "1 < length ?G" using ne by simp
    ultimately show ?thesis using True lastG old by auto
  next
    case False
    then have r: "r = Continue ?G" using insert(5) by (simp add: captured_def)
    have "\<not> captured g (point (?G ! j))" if "0 < j" "j < length ?G" for j
    proof (cases "j = length tree")
      case True
      then show ?thesis using False by (simp add: grow_new)
    next
      case False
      then show ?thesis using that old by simp
    qed
    then have "no_capture g ?G" by (simp add: no_capture_def)
    moreover have "?G \<noteq> []" by (metis grow_length length_0_conv nat.distinct(1))
    ultimately show ?thesis using r by blast
  qed
qed

lemma rrt_loop_capture:
  "no_capture g tree \<Longrightarrow> tree \<noteq> [] \<Longrightarrow> i \<le> m \<Longrightarrow> rrt_loop g rnd m i tree = Some (t, gi, n) \<Longrightarrow>
     (gi = - 1 \<and> n = m \<and> no_capture g t)
     \<or> (gi = int (length t) - 1 \<and> 1 < length t \<and> n < m \<and> captured g (point (last t))
         \<and> (\<forall>j. 0 < j \<and> j < length t - 1 \<longrightarrow> \<not> captured g (point (t ! j))))"
proof (induction g rnd m i tree rule: rrt_loop.induct)
  case (1 g rnd maxIter i tree)
  show ?case
  proof (cases "i < maxIter")
    case False
    then have "t = tree" "gi = - 1" "n = i"
      using "1.prems"(4) by (subst (asm) rrt_loop.simps; simp)+
    then show ?thesis using False "1.prems" by simp
  next
    case True
    with "1.prems"(4) obtain r where r: "iteration g rnd i tree = Some r"
      by (subst (asm) rrt_loop.simps) (auto split: option.splits)
    from iteration_capture[OF "1.prems"(1,2) r] show ?thesis
    proof
      assume "\<exists>t'. r = Continue t' \<and> t' \<noteq> [] \<and> no_capture g t'"
      then obtain t' where t': "r = Continue t'" "t' \<noteq> []" "no_capture g t'" by blast
      have "rrt_loop g rnd maxIter (i + 1) t' = Some (t, gi, n)"
        using "1.prems"(4) True r t'(1) by (subst (asm) rrt_loop.simps) simp
      moreover have "i + 1 \<le> maxIter" using True by simp
      ultimately show ?thesis using "1.IH"[OF True r t'(1) t'(3) t'(2)] by blast
    next
      assume "\<exists>t'. r = Break t' (int (length t') - 1) \<and> 1 < length t'
             \<and> captured g (point (last t'))
             \<and> (\<forall>j. 0 < j \<and> j < length t' - 1 \<longrightarrow> \<not> captured g (point (t' ! j)))"
      then obtain t' where t': "r = Break t' (int (length t') - 1)" "1 < length t'"
        "captured g (point (last t'))"
        "\<forall>j. 0 < j \<and> j < length t' - 1 \<longrightarrow> \<not> captured g (point (t' ! j))" by blast
      have "t = t'" "gi = int (length t') - 1" "n = i"
        using "1.prems"(4) True r t'(1) by (subst (asm) rrt_loop.simps; simp)+
      then show ?thesis using t' True by simp
    qed
  qed
qed


lemma no_capture_init: "no_capture g (init_tree g)"
  by (simp add: no_capture_def init_tree_def)

section \<open>Evaluation of concrete rounds\<close>

lemma sqrt_less_num: "(sqrt a < numeral c) = (a < numeral c * numeral c)"
  using real_sqrt_less_iff[of a "numeral c * numeral c"]
  by (simp only: real_sqrt_abs2 abs_numeral)

lemma num_less_sqrt: "(numeral c < sqrt a) = (numeral c * numeral c < a)"
  using real_sqrt_less_iff[of "numeral c * numeral c" a]
  by (simp only: real_sqrt_abs2 abs_numeral)

lemma sqrt_sq: "0 \<le> c \<Longrightarrow> c * c = a \<Longrightarrow> sqrt a = c"
  by (metis abs_of_nonneg real_sqrt_abs2)

lemma ln_le_half: "0 < x \<Longrightarrow> ln x \<le> x / 2" for x :: real
proof -
  assume x: "0 < x"
  define y where "y = x / 2"
  have y: "0 \<le> y" using x by (simp add: y_def)
  have "1 + y + y\<^sup>2 / 2 \<le> exp y"
    using y by (rule exp_lower_Taylor_quadratic)
  moreover have "0 \<le> (y - 1)\<^sup>2" by simp
  then have "2 * y \<le> 1 + y + y\<^sup>2 / 2"
    by (simp add: power2_eq_square algebra_simps)
  ultimately have "x \<le> exp (x / 2)" by (simp add: y_def)
  then have "ln x \<le> ln (exp (x / 2))" using x by (subst ln_le_cancel_iff) simp_all
  then show ?thesis by simp
qed

lemma near_radius_upper: "near_radius n < 36"
proof -
  let ?x = "real (n + 1)"
  have x: "0 < ?x" by simp
  have "ln ?x \<le> ?x / 2" using x by (rule ln_le_half)
  then have "ln ?x / ?x \<le> 1 / 2" using x by (simp add: field_simps)
  then have "sqrt (ln ?x / ?x) \<le> sqrt (1 / 2)" by (rule real_sqrt_le_mono)
  moreover have "sqrt (1 / 2 :: real) < 36 / 50"
    by (rule real_less_lsqrt) (simp_all add: power2_eq_square)
  ultimately have "50 * sqrt (ln ?x / ?x) < 36" by linarith
  then show ?thesis unfolding near_radius_def .
qed

lemma near_radius_lower: "2 \<le> n \<Longrightarrow> n \<le> 4 \<Longrightarrow> 22 < near_radius n"
proof -
  assume n: "2 \<le> n" "n \<le> 4"
  let ?x = "real (n + 1)"
  have x: "3 \<le> ?x" "?x \<le> 5" using n by simp_all
  have "exp 1 \<le> ?x" using exp_le x by linarith
  then have "1 \<le> ln ?x" using x by (simp add: ln_ge_iff)
  then have "1 / 5 \<le> ln ?x / ?x" using x by (simp add: field_simps)
  then have "sqrt (1 / 5) \<le> sqrt (ln ?x / ?x)" by (rule real_sqrt_le_mono)
  moreover have "22 / 50 < sqrt (1 / 5 :: real)"
    by (rule real_less_rsqrt) (simp add: power2_eq_square)
  ultimately have "22 < 50 * sqrt (ln ?x / ?x)" by linarith
  then show ?thesis unfolding near_radius_def .
qed


lemma inside_grid5:
  "0 \<le> fst p \<Longrightarrow> fst p < 500 \<Longrightarrow> 0 \<le> snd p \<Longrightarrow> snd p < 500 \<Longrightarrow>
     isInsideGrid (grid5 s t obs) p"
  by (simp add: isInsideGrid_def cell_row_def cell_col_def float_to_int_def grid5_def floor_less_iff)

lemma segment_bounds:
  fixes a b t :: real
  assumes "0 \<le> a" "a < c" "0 \<le> b" "b < c" "0 \<le> t" "t \<le> 1"
  shows "0 \<le> a + (b - a) * t \<and> a + (b - a) * t < c"
proof -
  have eq: "a + (b - a) * t = (1 - t) * a + t * b" by (simp add: algebra_simps)
  have "0 \<le> (1 - t) * a" "0 \<le> t * b" using assms by simp_all
  moreover have "(1 - t) * a + t * b < c"
    using assms by (intro convex_bound_lt) simp_all
  ultimately show ?thesis unfolding eq by simp
qed

lemma collisionFree_open5:
  assumes "0 \<le> fst a" "fst a < 500" "0 \<le> snd a" "snd a < 500"
    and "0 \<le> fst b" "fst b < 500" "0 \<le> snd b" "snd b < 500"
  shows "collisionFree (grid5 s t {}) a b"
proof -
  have "isInsideGrid (grid5 s t {}) (sample_pt a b k) \<and> \<not> isObstacle (grid5 s t {}) (sample_pt a b k)"
    if "k \<in> {1..10}" for k
  proof -
    have t: "0 \<le> real k / 10" "real k / 10 \<le> 1" using that by simp_all
    have "isInsideGrid (grid5 s t {}) (sample_pt a b k)"
      using segment_bounds[OF assms(1,2,5,6) t] segment_bounds[OF assms(3,4,7,8) t]
      by (intro inside_grid5) (simp_all add: pt_defs)
    then show ?thesis by (simp add: isObstacle_def grid5_def)
  qed
  then show ?thesis unfolding collisionFree_def collisionFree_from_iff by blast
qed

lemma dist_pt_pair: "dist_pt (x1, y1) (x2, y2) = sqrt ((x1 - x2) * (x1 - x2) + (y1 - y2) * (y1 - y2))"
  by (simp add: dist_pt_def p_norm_def p_sub_def)

lemma iteration_insertI:
  assumes "randPt = (if i mod 5 = 0 then goalPt g else clampToGrid (rnd i))"
    and "isInsideGrid g randPt" "\<not> isObstacle g randPt"
    and "nearest_from tree randPt 0 (- 1, 1000000000) = (int k, bestDist)" "k < length tree"
    and "nearPt = point (tree ! k)"
    and "p_norm (p_sub randPt nearPt) \<noteq> 0"
    and "newPt = clampToGrid (p_add nearPt
            (p_scale (p_sub randPt nearPt) (min 50 bestDist / p_norm (p_sub randPt nearPt))))"
    and "isInsideGrid g newPt" "collisionFree g nearPt newPt"
    and "choose_parent_from g tree newPt (near_radius (length tree)) 0
            (int k, cost (tree ! k) + dist_pt nearPt newPt) = (bestParent, bestCost)"
    and "tree'' = rewire_from g newPt bestCost (near_radius (length tree)) (length tree) 0
            (tree @ [\<lparr>point = newPt, parent = bestParent, cost = bestCost\<rparr>])"
  shows "iteration g rnd i tree =
     Some (if dist_pt newPt (goalPt g) < real_of_int (cellSize g) * (6 / 10)
           then Break tree'' (int (length tree)) else Continue tree'')"
  unfolding iteration_def using assms by (simp add: Let_def)

lemma detour_round0:
  "iteration (grid5 (0, 0) (2, 0) {}) detour_rnd 0 [mk_node (50, 50) (- 1) 0] =
     Some (Continue [mk_node (50, 50) (- 1) 0, mk_node (100, 50) 0 50])"
proof -
  let ?g = "grid5 (0, 0) (2, 0) {}"
  let ?tree = "[mk_node (50, 50) (- 1) 0]"
  let ?new = "[mk_node (50, 50) (- 1) 0, mk_node (100, 50) 0 50]"
  have s: "sqrt 2500 = 50" "sqrt 22500 = 150" "sqrt 40000 = 200"
    by (rule sqrt_sq; simp)+
  have gp: "goalPt ?g = (250, 50)"
    by (simp add: goalPt_def cell_centre_def grid5_def)
  have r0: "\<not> 50 < near_radius (Suc 0)"
    using near_radius_upper[of "(Suc 0)"] by simp
  have cs: "cellSize ?g = 100" by (simp add: grid5_def)
  note ev = dist_pt_pair s gp num_less_sqrt sqrt_less_num collisionFree_open5 inside_grid5
  have "iteration ?g detour_rnd 0 ?tree =
     Some (if dist_pt (100, 50) (goalPt ?g) < real_of_int (cellSize ?g) * (6 / 10)
           then Break ?new (int (length ?tree)) else Continue ?new)"
  proof (rule iteration_insertI[where randPt = "(250, 50)" and k = 0 and bestDist = 200
        and nearPt = "(50, 50)" and bestParent = 0 and bestCost = 50])
    show "(250, 50) = (if (0::nat) mod 5 = 0 then goalPt ?g else clampToGrid (detour_rnd 0))"
      by (simp add: gp detour_rnd_def clampToGrid_def clamp_def canvasSize_def)
    show "isInsideGrid ?g (250, 50)" by (simp add: inside_grid5)
    show "\<not> isObstacle ?g (250, 50)"
      by (simp add: isObstacle_def inside_grid5) (simp add: grid5_def)
    show "nearest_from ?tree (250, 50) 0 (- 1, 1000000000) = (int 0, 200)"
      by (simp add: nearest_from.simps ev)
    show "0 < length ?tree" by simp
    show "(50, 50) = point (?tree ! 0)" by simp
    show "p_norm (p_sub (250, 50) (50, 50)) \<noteq> 0" by (simp add: p_norm_def p_sub_def s)
    show "(100, 50) = clampToGrid (p_add (50, 50)
            (p_scale (p_sub (250, 50) (50, 50)) (min 50 200 / p_norm (p_sub (250, 50) (50, 50)))))"
      by (simp add: p_norm_def p_sub_def p_add_def p_scale_def s clampToGrid_def clamp_def canvasSize_def)
    show "isInsideGrid ?g (100, 50)" by (simp add: inside_grid5)
    show "collisionFree ?g (50, 50) (100, 50)" by (simp add: collisionFree_open5)
    show "choose_parent_from ?g ?tree (100, 50) (near_radius (length ?tree)) 0
            (int 0, cost (?tree ! 0) + dist_pt (50, 50) (100, 50)) = (0, 50)"
      by (simp add: choose_parent_from.simps ev r0)
    show "?new = rewire_from ?g (100, 50) 50 (near_radius (length ?tree)) (length ?tree) 0
            (?tree @ [mk_node (100, 50) 0 50])"
      by (simp add: rewire_from.simps ev r0)
  qed
  then show ?thesis
    by (simp add: ev cs)
qed

lemma detour_round1:
  "iteration (grid5 (0, 0) (2, 0) {}) detour_rnd (Suc 0) [mk_node (50, 50) (- 1) 0, mk_node (100, 50) 0 50] =
     Some (Continue [mk_node (50, 50) (- 1) 0, mk_node (100, 50) 0 50, mk_node (86, 50) 1 64])"
proof -
  let ?g = "grid5 (0, 0) (2, 0) {}"
  let ?tree = "[mk_node (50, 50) (- 1) 0, mk_node (100, 50) 0 50]"
  let ?new = "[mk_node (50, 50) (- 1) 0, mk_node (100, 50) 0 50, mk_node (86, 50) 1 64]"
  have s: "sqrt 196 = 14" "sqrt 1296 = 36" "sqrt 26896 = 164"
    by (rule sqrt_sq; simp)+
  have gp: "goalPt ?g = (250, 50)"
    by (simp add: goalPt_def cell_centre_def grid5_def)
  have r0: "\<not> 36 < near_radius (Suc (Suc 0))"
    using near_radius_upper[of "(Suc (Suc 0))"] by simp
  have r1: "14 < near_radius (Suc (Suc 0))"
    using near_radius_lower[of "(Suc (Suc 0))"] by simp
  have cs: "cellSize ?g = 100" by (simp add: grid5_def)
  note ev = dist_pt_pair s gp num_less_sqrt sqrt_less_num collisionFree_open5 inside_grid5
  have "iteration ?g detour_rnd (Suc 0) ?tree =
     Some (if dist_pt (86, 50) (goalPt ?g) < real_of_int (cellSize ?g) * (6 / 10)
           then Break ?new (int (length ?tree)) else Continue ?new)"
  proof (rule iteration_insertI[where randPt = "(86, 50)" and k = 1 and bestDist = 14
        and nearPt = "(100, 50)" and bestParent = 1 and bestCost = 64])
    show "(86, 50) = (if (Suc 0) mod 5 = 0 then goalPt ?g else clampToGrid (detour_rnd (Suc 0)))"
      by (simp add: gp detour_rnd_def clampToGrid_def clamp_def canvasSize_def)
    show "isInsideGrid ?g (86, 50)" by (simp add: inside_grid5)
    show "\<not> isObstacle ?g (86, 50)"
      by (simp add: isObstacle_def inside_grid5) (simp add: grid5_def)
    show "nearest_from ?tree (86, 50) 0 (- 1, 1000000000) = (int 1, 14)"
      by (simp add: nearest_from.simps ev)
    show "1 < length ?tree" by simp
    show "(100, 50) = point (?tree ! 1)" by simp
    show "p_norm (p_sub (86, 50) (100, 50)) \<noteq> 0" by (simp add: p_norm_def p_sub_def s)
    show "(86, 50) = clampToGrid (p_add (100, 50)
            (p_scale (p_sub (86, 50) (100, 50)) (min 50 14 / p_norm (p_sub (86, 50) (100, 50)))))"
      by (simp add: p_norm_def p_sub_def p_add_def p_scale_def s clampToGrid_def clamp_def canvasSize_def)
    show "isInsideGrid ?g (86, 50)" by (simp add: inside_grid5)
    show "collisionFree ?g (100, 50) (86, 50)" by (simp add: collisionFree_open5)
    show "choose_parent_from ?g ?tree (86, 50) (near_radius (length ?tree)) 0
            (int 1, cost (?tree ! 1) + dist_pt (100, 50) (86, 50)) = (1, 64)"
      by (simp add: choose_parent_from.simps ev r0 r1)
    show "?new = rewire_from ?g (86, 50) 64 (near_radius (length ?tree)) (length ?tree) 0
            (?tree @ [mk_node (86, 50) 1 64])"
      by (simp add: rewire_from.simps ev r0 r1)
  qed
  then show ?thesis
    by (simp add: ev cs)
qed

lemma detour_round2:
  "iteration (grid5 (0, 0) (2, 0) {}) detour_rnd 2 [mk_node (50, 50) (- 1) 0, mk_node (100, 50) 0 50, mk_node (86, 50) 1 64] =
     Some (Continue [mk_node (50, 50) (- 1) 0, mk_node (100, 50) 0 50, mk_node (86, 50) 1 64, mk_node (86, 86) 2 100])"
proof -
  let ?g = "grid5 (0, 0) (2, 0) {}"
  let ?tree = "[mk_node (50, 50) (- 1) 0, mk_node (100, 50) 0 50, mk_node (86, 50) 1 64]"
  let ?new = "[mk_node (50, 50) (- 1) 0, mk_node (100, 50) 0 50, mk_node (86, 50) 1 64, mk_node (86, 86) 2 100]"
  have s: "sqrt 1296 = 36"
    by (rule sqrt_sq; simp)+
  have gp: "goalPt ?g = (250, 50)"
    by (simp add: goalPt_def cell_centre_def grid5_def)
  have r0: "\<not> sqrt 2592 < near_radius (Suc (Suc (Suc 0)))"
    using near_radius_upper[of "(Suc (Suc (Suc 0)))"] real_le_rsqrt[of 36 2592] by simp
  have r1: "\<not> sqrt 1492 < near_radius (Suc (Suc (Suc 0)))"
    using near_radius_upper[of "(Suc (Suc (Suc 0)))"] real_le_rsqrt[of 36 1492] by simp
  have r2: "\<not> 36 < near_radius (Suc (Suc (Suc 0)))"
    using near_radius_upper[of "(Suc (Suc (Suc 0)))"] by simp
  have cs: "cellSize ?g = 100" by (simp add: grid5_def)
  note ev = dist_pt_pair s gp num_less_sqrt sqrt_less_num collisionFree_open5 inside_grid5
  have "iteration ?g detour_rnd 2 ?tree =
     Some (if dist_pt (86, 86) (goalPt ?g) < real_of_int (cellSize ?g) * (6 / 10)
           then Break ?new (int (length ?tree)) else Continue ?new)"
  proof (rule iteration_insertI[where randPt = "(86, 86)" and k = 2 and bestDist = 36
        and nearPt = "(86, 50)" and bestParent = 2 and bestCost = 100])
    show "(86, 86) = (if (2::nat) mod 5 = 0 then goalPt ?g else clampToGrid (detour_rnd 2))"
      by (simp add: gp detour_rnd_def clampToGrid_def clamp_def canvasSize_def)
    show "isInsideGrid ?g (86, 86)" by (simp add: inside_grid5)
    show "\<not> isObstacle ?g (86, 86)"
      by (simp add: isObstacle_def inside_grid5) (simp add: grid5_def)
    show "nearest_from ?tree (86, 86) 0 (- 1, 1000000000) = (int 2, 36)"
      by (simp add: nearest_from.simps ev)
    show "2 < length ?tree" by simp
    show "(86, 50) = point (?tree ! 2)" by simp
    show "p_norm (p_sub (86, 86) (86, 50)) \<noteq> 0" by (simp add: p_norm_def p_sub_def s)
    show "(86, 86) = clampToGrid (p_add (86, 50)
            (p_scale (p_sub (86, 86) (86, 50)) (min 50 36 / p_norm (p_sub (86, 86) (86, 50)))))"
      by (simp add: p_norm_def p_sub_def p_add_def p_scale_def s clampToGrid_def clamp_def canvasSize_def)
    show "isInsideGrid ?g (86, 86)" by (simp add: inside_grid5)
    show "collisionFree ?g (86, 50) (86, 86)" by (simp add: collisionFree_open5)
    show "choose_parent_from ?g ?tree (86, 86) (near_radius (length ?tree)) 0
            (int 2, cost (?tree ! 2) + dist_pt (86, 50) (86, 86)) = (2, 100)"
      by (simp add: choose_parent_from.simps ev r0 r1 r2)
    show "?new = rewire_from ?g (86, 86) 100 (near_radius (length ?tree)) (length ?tree) 0
            (?tree @ [mk_node (86, 86) 2 100])"
      by (simp add: rewire_from.simps ev r0 r1 r2)
  qed
  then show ?thesis
    by (simp add: ev cs)
qed

lemma detour_round3:
  "iteration (grid5 (0, 0) (2, 0) {}) detour_rnd 3 [mk_node (50, 50) (- 1) 0, mk_node (100, 50) 0 50, mk_node (86, 50) 1 64, mk_node (86, 86) 2 100] =
     Some (Continue [mk_node (50, 50) (- 1) 0, mk_node (100, 50) 0 50, mk_node (86, 50) 4 36, mk_node (86, 86) 2 100, mk_node (64, 50) 0 14])"
proof -
  let ?g = "grid5 (0, 0) (2, 0) {}"
  let ?tree = "[mk_node (50, 50) (- 1) 0, mk_node (100, 50) 0 50, mk_node (86, 50) 1 64, mk_node (86, 86) 2 100]"
  let ?new = "[mk_node (50, 50) (- 1) 0, mk_node (100, 50) 0 50, mk_node (86, 50) 4 36, mk_node (86, 86) 2 100, mk_node (64, 50) 0 14]"
  have s: "sqrt 196 = 14" "sqrt 484 = 22" "sqrt 1296 = 36" "sqrt 34596 = 186"
    by (rule sqrt_sq; simp)+
  have gp: "goalPt ?g = (250, 50)"
    by (simp add: goalPt_def cell_centre_def grid5_def)
  have r0: "14 < near_radius (Suc (Suc (Suc (Suc 0))))"
    using near_radius_lower[of "(Suc (Suc (Suc (Suc 0))))"] by simp
  have r1: "\<not> 36 < near_radius (Suc (Suc (Suc (Suc 0))))"
    using near_radius_upper[of "(Suc (Suc (Suc (Suc 0))))"] by simp
  have r2: "22 < near_radius (Suc (Suc (Suc (Suc 0))))"
    using near_radius_lower[of "(Suc (Suc (Suc (Suc 0))))"] by simp
  have r3: "\<not> sqrt 1780 < near_radius (Suc (Suc (Suc (Suc 0))))"
    using near_radius_upper[of "(Suc (Suc (Suc (Suc 0))))"] real_le_rsqrt[of 36 1780] by simp
  have cs: "cellSize ?g = 100" by (simp add: grid5_def)
  note ev = dist_pt_pair s gp num_less_sqrt sqrt_less_num collisionFree_open5 inside_grid5
  have "iteration ?g detour_rnd 3 ?tree =
     Some (if dist_pt (64, 50) (goalPt ?g) < real_of_int (cellSize ?g) * (6 / 10)
           then Break ?new (int (length ?tree)) else Continue ?new)"
  proof (rule iteration_insertI[where randPt = "(64, 50)" and k = 0 and bestDist = 14
        and nearPt = "(50, 50)" and bestParent = 0 and bestCost = 14])
    show "(64, 50) = (if (3::nat) mod 5 = 0 then goalPt ?g else clampToGrid (detour_rnd 3))"
      by (simp add: gp detour_rnd_def clampToGrid_def clamp_def canvasSize_def)
    show "isInsideGrid ?g (64, 50)" by (simp add: inside_grid5)
    show "\<not> isObstacle ?g (64, 50)"
      by (simp add: isObstacle_def inside_grid5) (simp add: grid5_def)
    show "nearest_from ?tree (64, 50) 0 (- 1, 1000000000) = (int 0, 14)"
      by (simp add: nearest_from.simps ev)
    show "0 < length ?tree" by simp
    show "(50, 50) = point (?tree ! 0)" by simp
    show "p_norm (p_sub (64, 50) (50, 50)) \<noteq> 0" by (simp add: p_norm_def p_sub_def s)
    show "(64, 50) = clampToGrid (p_add (50, 50)
            (p_scale (p_sub (64, 50) (50, 50)) (min 50 14 / p_norm (p_sub (64, 50) (50, 50)))))"
      by (simp add: p_norm_def p_sub_def p_add_def p_scale_def s clampToGrid_def clamp_def canvasSize_def)
    show "isInsideGrid ?g (64, 50)" by (simp add: inside_grid5)
    show "collisionFree ?g (50, 50) (64, 50)" by (simp add: collisionFree_open5)
    show "choose_parent_from ?g ?tree (64, 50) (near_radius (length ?tree)) 0
            (int 0, cost (?tree ! 0) + dist_pt (50, 50) (64, 50)) = (0, 14)"
      by (simp add: choose_parent_from.simps ev r0 r1 r2 r3)
    show "?new = rewire_from ?g (64, 50) 14 (near_radius (length ?tree)) (length ?tree) 0
            (?tree @ [mk_node (64, 50) 0 14])"
      by (simp add: rewire_from.simps ev r0 r1 r2 r3)
  qed
  then show ?thesis
    by (simp add: ev cs)
qed

lemma detour_round4:
  "iteration (grid5 (0, 0) (2, 0) {}) detour_rnd 4 [mk_node (50, 50) (- 1) 0, mk_node (100, 50) 0 50, mk_node (86, 50) 4 36, mk_node (86, 86) 2 100, mk_node (64, 50) 0 14] =
     Some (Continue [mk_node (50, 50) (- 1) 0, mk_node (100, 50) 0 50, mk_node (86, 50) 4 36, mk_node (86, 86) 2 100, mk_node (64, 50) 0 14, mk_node (150, 50) 1 100])"
proof -
  let ?g = "grid5 (0, 0) (2, 0) {}"
  let ?tree = "[mk_node (50, 50) (- 1) 0, mk_node (100, 50) 0 50, mk_node (86, 50) 4 36, mk_node (86, 86) 2 100, mk_node (64, 50) 0 14]"
  let ?new = "[mk_node (50, 50) (- 1) 0, mk_node (100, 50) 0 50, mk_node (86, 50) 4 36, mk_node (86, 86) 2 100, mk_node (64, 50) 0 14, mk_node (150, 50) 1 100]"
  have s: "sqrt 2500 = 50" "sqrt 4096 = 64" "sqrt 7396 = 86" "sqrt 10000 = 100"
    by (rule sqrt_sq; simp)+
  have gp: "goalPt ?g = (250, 50)"
    by (simp add: goalPt_def cell_centre_def grid5_def)
  have r0: "\<not> 100 < near_radius (Suc (Suc (Suc (Suc (Suc 0)))))"
    using near_radius_upper[of "(Suc (Suc (Suc (Suc (Suc 0)))))"] by simp
  have r1: "\<not> 50 < near_radius (Suc (Suc (Suc (Suc (Suc 0)))))"
    using near_radius_upper[of "(Suc (Suc (Suc (Suc (Suc 0)))))"] by simp
  have r2: "\<not> 64 < near_radius (Suc (Suc (Suc (Suc (Suc 0)))))"
    using near_radius_upper[of "(Suc (Suc (Suc (Suc (Suc 0)))))"] by simp
  have r3: "\<not> sqrt 5392 < near_radius (Suc (Suc (Suc (Suc (Suc 0)))))"
    using near_radius_upper[of "(Suc (Suc (Suc (Suc (Suc 0)))))"] real_le_rsqrt[of 36 5392] by simp
  have r4: "\<not> 86 < near_radius (Suc (Suc (Suc (Suc (Suc 0)))))"
    using near_radius_upper[of "(Suc (Suc (Suc (Suc (Suc 0)))))"] by simp
  have cs: "cellSize ?g = 100" by (simp add: grid5_def)
  note ev = dist_pt_pair s gp num_less_sqrt sqrt_less_num collisionFree_open5 inside_grid5
  have "iteration ?g detour_rnd 4 ?tree =
     Some (if dist_pt (150, 50) (goalPt ?g) < real_of_int (cellSize ?g) * (6 / 10)
           then Break ?new (int (length ?tree)) else Continue ?new)"
  proof (rule iteration_insertI[where randPt = "(150, 50)" and k = 1 and bestDist = 50
        and nearPt = "(100, 50)" and bestParent = 1 and bestCost = 100])
    show "(150, 50) = (if (4::nat) mod 5 = 0 then goalPt ?g else clampToGrid (detour_rnd 4))"
      by (simp add: gp detour_rnd_def clampToGrid_def clamp_def canvasSize_def)
    show "isInsideGrid ?g (150, 50)" by (simp add: inside_grid5)
    show "\<not> isObstacle ?g (150, 50)"
      by (simp add: isObstacle_def inside_grid5) (simp add: grid5_def)
    show "nearest_from ?tree (150, 50) 0 (- 1, 1000000000) = (int 1, 50)"
      by (simp add: nearest_from.simps ev)
    show "1 < length ?tree" by simp
    show "(100, 50) = point (?tree ! 1)" by simp
    show "p_norm (p_sub (150, 50) (100, 50)) \<noteq> 0" by (simp add: p_norm_def p_sub_def s)
    show "(150, 50) = clampToGrid (p_add (100, 50)
            (p_scale (p_sub (150, 50) (100, 50)) (min 50 50 / p_norm (p_sub (150, 50) (100, 50)))))"
      by (simp add: p_norm_def p_sub_def p_add_def p_scale_def s clampToGrid_def clamp_def canvasSize_def)
    show "isInsideGrid ?g (150, 50)" by (simp add: inside_grid5)
    show "collisionFree ?g (100, 50) (150, 50)" by (simp add: collisionFree_open5)
    show "choose_parent_from ?g ?tree (150, 50) (near_radius (length ?tree)) 0
            (int 1, cost (?tree ! 1) + dist_pt (100, 50) (150, 50)) = (1, 100)"
      by (simp add: choose_parent_from.simps ev r0 r1 r2 r3 r4)
    show "?new = rewire_from ?g (150, 50) 100 (near_radius (length ?tree)) (length ?tree) 0
            (?tree @ [mk_node (150, 50) 1 100])"
      by (simp add: rewire_from.simps ev r0 r1 r2 r3 r4)
  qed
  then show ?thesis
    by (simp add: ev cs)
qed

lemma detour_round5:
  "iteration (grid5 (0, 0) (2, 0) {}) detour_rnd 5 [mk_node (50, 50) (- 1) 0, mk_node (100, 50) 0 50, mk_node (86, 50) 4 36, mk_node (86, 86) 2 100, mk_node (64, 50) 0 14, mk_node (150, 50) 1 100] =
     Some (Break [mk_node (50, 50) (- 1) 0, mk_node (100, 50) 0 50, mk_node (86, 50) 4 36, mk_node (86, 86) 2 100, mk_node (64, 50) 0 14, mk_node (150, 50) 1 100, mk_node (200, 50) 5 150] 6)"
proof -
  let ?g = "grid5 (0, 0) (2, 0) {}"
  let ?tree = "[mk_node (50, 50) (- 1) 0, mk_node (100, 50) 0 50, mk_node (86, 50) 4 36, mk_node (86, 86) 2 100, mk_node (64, 50) 0 14, mk_node (150, 50) 1 100]"
  let ?new = "[mk_node (50, 50) (- 1) 0, mk_node (100, 50) 0 50, mk_node (86, 50) 4 36, mk_node (86, 86) 2 100, mk_node (64, 50) 0 14, mk_node (150, 50) 1 100, mk_node (200, 50) 5 150]"
  have s: "sqrt 2500 = 50" "sqrt 10000 = 100" "sqrt 12996 = 114" "sqrt 18496 = 136" "sqrt 22500 = 150"
    by (rule sqrt_sq; simp)+
  have gp: "goalPt ?g = (250, 50)"
    by (simp add: goalPt_def cell_centre_def grid5_def)
  have r0: "\<not> 150 < near_radius (Suc (Suc (Suc (Suc (Suc (Suc 0))))))"
    using near_radius_upper[of "(Suc (Suc (Suc (Suc (Suc (Suc 0))))))"] by simp
  have r1: "\<not> 100 < near_radius (Suc (Suc (Suc (Suc (Suc (Suc 0))))))"
    using near_radius_upper[of "(Suc (Suc (Suc (Suc (Suc (Suc 0))))))"] by simp
  have r2: "\<not> 114 < near_radius (Suc (Suc (Suc (Suc (Suc (Suc 0))))))"
    using near_radius_upper[of "(Suc (Suc (Suc (Suc (Suc (Suc 0))))))"] by simp
  have r3: "\<not> sqrt 14292 < near_radius (Suc (Suc (Suc (Suc (Suc (Suc 0))))))"
    using near_radius_upper[of "(Suc (Suc (Suc (Suc (Suc (Suc 0))))))"] real_le_rsqrt[of 36 14292] by simp
  have r4: "\<not> 136 < near_radius (Suc (Suc (Suc (Suc (Suc (Suc 0))))))"
    using near_radius_upper[of "(Suc (Suc (Suc (Suc (Suc (Suc 0))))))"] by simp
  have r5: "\<not> 50 < near_radius (Suc (Suc (Suc (Suc (Suc (Suc 0))))))"
    using near_radius_upper[of "(Suc (Suc (Suc (Suc (Suc (Suc 0))))))"] by simp
  have cs: "cellSize ?g = 100" by (simp add: grid5_def)
  note ev = dist_pt_pair s gp num_less_sqrt sqrt_less_num collisionFree_open5 inside_grid5
  have "iteration ?g detour_rnd 5 ?tree =
     Some (if dist_pt (200, 50) (goalPt ?g) < real_of_int (cellSize ?g) * (6 / 10)
           then Break ?new (int (length ?tree)) else Continue ?new)"
  proof (rule iteration_insertI[where randPt = "(250, 50)" and k = 5 and bestDist = 100
        and nearPt = "(150, 50)" and bestParent = 5 and bestCost = 150])
    show "(250, 50) = (if (5::nat) mod 5 = 0 then goalPt ?g else clampToGrid (detour_rnd 5))"
      by (simp add: gp detour_rnd_def clampToGrid_def clamp_def canvasSize_def)
    show "isInsideGrid ?g (250, 50)" by (simp add: inside_grid5)
    show "\<not> isObstacle ?g (250, 50)"
      by (simp add: isObstacle_def inside_grid5) (simp add: grid5_def)
    show "nearest_from ?tree (250, 50) 0 (- 1, 1000000000) = (int 5, 100)"
      by (simp add: nearest_from.simps ev)
    show "5 < length ?tree" by simp
    show "(150, 50) = point (?tree ! 5)" by simp
    show "p_norm (p_sub (250, 50) (150, 50)) \<noteq> 0" by (simp add: p_norm_def p_sub_def s)
    show "(200, 50) = clampToGrid (p_add (150, 50)
            (p_scale (p_sub (250, 50) (150, 50)) (min 50 100 / p_norm (p_sub (250, 50) (150, 50)))))"
      by (simp add: p_norm_def p_sub_def p_add_def p_scale_def s clampToGrid_def clamp_def canvasSize_def)
    show "isInsideGrid ?g (200, 50)" by (simp add: inside_grid5)
    show "collisionFree ?g (150, 50) (200, 50)" by (simp add: collisionFree_open5)
    show "choose_parent_from ?g ?tree (200, 50) (near_radius (length ?tree)) 0
            (int 5, cost (?tree ! 5) + dist_pt (150, 50) (200, 50)) = (5, 150)"
      by (simp add: choose_parent_from.simps ev r0 r1 r2 r3 r4 r5)
    show "?new = rewire_from ?g (200, 50) 150 (near_radius (length ?tree)) (length ?tree) 0
            (?tree @ [mk_node (200, 50) 5 150])"
      by (simp add: rewire_from.simps ev r0 r1 r2 r3 r4 r5)
  qed
  then show ?thesis
    by (simp add: ev cs)
qed

lemma detour_init: "init_tree (grid5 (0, 0) (2, 0) {}) = [mk_node (50, 50) (- 1) 0]"
  by (simp add: init_tree_def startPt_def cell_centre_def grid5_def)

lemmas detour_rounds =
  detour_round0 detour_round1 detour_round2 detour_round3 detour_round4 detour_round5

lemma detour_run3:
  "rrt_loop (grid5 (0, 0) (2, 0) {}) detour_rnd 3 0 (init_tree (grid5 (0, 0) (2, 0) {})) =
     Some ([mk_node (50, 50) (- 1) 0, mk_node (100, 50) 0 50, mk_node (86, 50) 1 64, mk_node (86, 86) 2 100], - 1, 3)"
  by (simp add: detour_init rrt_loop.simps detour_rounds numeral_2_eq_2[symmetric])

lemma detour_run4:
  "rrt_loop (grid5 (0, 0) (2, 0) {}) detour_rnd 4 0 (init_tree (grid5 (0, 0) (2, 0) {})) =
     Some ([mk_node (50, 50) (- 1) 0, mk_node (100, 50) 0 50, mk_node (86, 50) 4 36, mk_node (86, 86) 2 100, mk_node (64, 50) 0 14], - 1, 4)"
  by (simp add: detour_init rrt_loop.simps detour_rounds numeral_2_eq_2[symmetric])

lemma detour_plan:
  "plan (grid5 (0, 0) (2, 0) {}) detour_rnd =
     Some ([mk_node (50, 50) (- 1) 0, mk_node (100, 50) 0 50, mk_node (86, 50) 4 36, mk_node (86, 86) 2 100, mk_node (64, 50) 0 14, mk_node (150, 50) 1 100, mk_node (200, 50) 5 150], 6, 5)"
  by (simp add: plan_def MAX_ITER_def detour_init rrt_loop.simps detour_rounds numeral_2_eq_2[symmetric])

lemma detour_state3:
  "rrt_loop (grid5 (0, 0) (2, 0) {}) detour_rnd 3 0 (init_tree (grid5 (0, 0) (2, 0) {})) =
     Some (detour_tree3, - 1, 3)"
  unfolding detour_tree3_def by (rule detour_run3)

lemma detour_state4:
  "rrt_loop (grid5 (0, 0) (2, 0) {}) detour_rnd 4 0 (init_tree (grid5 (0, 0) (2, 0) {})) =
     Some (detour_tree4, - 1, 4)"
  unfolding detour_tree4_def by (rule detour_run4)

lemma detour_step3:
  "iteration (grid5 (0, 0) (2, 0) {}) detour_rnd 3 detour_tree3 = Some (Continue detour_tree4)"
  unfolding detour_tree3_def detour_tree4_def by (rule detour_round3)

lemma detour_outcome:
  "plan (grid5 (0, 0) (2, 0) {}) detour_rnd = Some (detour_final, 6, 5)"
  unfolding detour_final_def by (rule detour_plan)

lemma detour_raw_path:
  "walk_parents detour_final 6 [] = Some (rev [(50, 50), (100, 50), (150, 50), (200, 50)])"
  by (simp add: detour_final_def walk_parents.simps)

lemma detour_smoothed:
  "shortcut (grid5 (0, 0) (2, 0) {}) [(50, 50), (100, 50), (150, 50), (200, 50)]
     = Some [(50, 50), (200, 50)]"
  by (simp add: shortcut_def smooth_loop.simps scan_back.simps collisionFree_open5)

lemma detour_smoothPath:
  "smoothPath (grid5 (0, 0) (2, 0) {}) detour_final 6 = Some [(50, 50), (200, 50)]"
  using detour_raw_path detour_smoothed by (simp add: smoothPath_def)


lemma corner_obstacle_forward:
  "collisionFree (grid5 (1, 0) (4, 0) {(0, 0)}) (99, 50) (199, 50)"
  unfolding collisionFree_def
  by (simp add: collisionFree_from.simps pt_defs occ_defs grid5_def)

lemma corner_obstacle_backward:
  "\<not> collisionFree (grid5 (1, 0) (4, 0) {(0, 0)}) (199, 50) (99, 50)"
  unfolding collisionFree_def
  by (simp add: collisionFree_from.simps pt_defs occ_defs grid5_def)

lemma chain_free_pair: "chain_free g [a, b] = collisionFree g a b"
  by (auto simp: chain_free_def less_Suc_eq)

section \<open>The claims about the planning loop and the smoothed path\<close>

lemma rrt_loop_inv:
  "rrt_loop g rnd m 0 (init_tree g) = Some (tree, goalIdx, n) \<Longrightarrow> tree_inv g tree"
  using tree_inv_init by (rule rrt_loop_tree_inv)

lemma rrt_loop_goal_index:
  assumes "rrt_loop g rnd m 0 (init_tree g) = Some (tree, goalIdx, n)" "goalIdx \<noteq> - 1"
  shows "goalIdx = int (length tree - 1) \<and> length tree - 1 < length tree"
proof -
  have "init_tree g \<noteq> []" by (simp add: init_tree_def)
  from rrt_loop_capture[OF no_capture_init this _ assms(1)] assms(2)
  show ?thesis by auto
qed

lemma iteration_reparent:
  assumes inv: "tree_inv g tree" and r: "iteration g rnd i tree = Some r"
    and j: "j < length tree" and ch: "parent (tree_of r ! j) \<noteq> parent (tree ! j)"
  shows "parent (tree_of r ! j) = int (length tree) \<and> cost (tree_of r ! j) < cost (tree ! j)"
  using r
proof (cases rule: iteration_cases)
  case skip
  then show ?thesis using ch by simp
next
  case (insert k newPt bp bc)
  have t: "tree_of r = grow g tree newPt bp bc" using insert(5) by simp
  from grow_old[OF j, of g newPt bp bc] ch show ?thesis unfolding t by auto
qed

lemma shortcut_chain_free:
  assumes ne: "path \<noteq> []" and cf: "chain_free g path"
  shows "\<exists>s. shortcut g path = Some s \<and> s \<noteq> [] \<and> hd s = hd path \<and> last s = last path
        \<and> length s \<le> length path \<and> chain_free g s \<and> shortcut g s = Some s"
proof -
  from greedy_chain_exists[OF cf, of 0] obtain js where gc: "greedy_chain g path 0 js" by blast
  let ?J = "0 # js"
  let ?S = "map ((!) path) ?J"
  have i: "0 < length path" using ne by simp
  have s: "shortcut g path = Some ?S" using ne gc by (rule shortcut_greedy_chain)
  have idem: "shortcut g ?S = Some ?S" using ne gc by (rule shortcut_idem_chain)
  have srt: "sorted_wrt (<) ?J" using gc by (rule greedy_chain_sorted)
  have bnd: "\<forall>j\<in>set ?J. j < length path" using gc i by (rule greedy_chain_bound)
  have h: "hd ?S = hd path" using ne by (simp add: hd_conv_nth)
  have "last ?S = path ! last ?J" by (rule last_map) simp
  also have "\<dots> = path ! (length path - 1)" using greedy_chain_last[OF gc i] by simp
  also have "\<dots> = last path" using ne by (simp add: last_conv_nth)
  finally have l: "last ?S = last path" .
  have len: "length ?S \<le> length path"
    using strict_sorted_length_le[OF srt bnd] by simp
  have "collisionFree g (?S ! k) (?S ! Suc k)" if k: "Suc k < length ?S" for k
  proof -
    have kk: "Suc k < length ?J" using k by simp
    from greedy_chain_nth[OF gc kk]
    have a: "?J ! k < length path - 1"
      and b: "?J ! Suc k = scan_back g path (?J ! k) (length path - 1)"
      and c: "?J ! k < ?J ! Suc k" by auto
    have le: "?J ! k \<le> length path - 1" using a by simp
    have "collisionFree g (path ! (?J ! k)) (path ! (?J ! Suc k))"
      using scan_back_spec[OF le, of g path] b c by metis
    moreover have "?S ! k = path ! (?J ! k)" using kk by (intro nth_map) simp
    moreover have "?S ! Suc k = path ! (?J ! Suc k)" using kk by (intro nth_map)
    ultimately show ?thesis by simp
  qed
  then have c: "chain_free g ?S" unfolding chain_free_def by blast
  show ?thesis using s h l len c idem by auto
qed

lemma plan_raw_path:
  assumes "plan g rnd = Some (tree, goalIdx, n)" "goalIdx \<noteq> - 1"
  shows "\<exists>raw. walk_parents tree goalIdx [] = Some (rev raw) \<and> raw \<noteq> [] \<and> chain_free g raw"
proof -
  note run = assms(1)[unfolded plan_def]
  have inv: "tree_inv g tree" using run by (rule rrt_loop_inv)
  from rrt_loop_goal_index[OF run assms(2)]
  have gi: "goalIdx = int (length tree - 1)" and j: "length tree - 1 < length tree" by auto
  from tree_inv_raw_path[OF inv j] show ?thesis unfolding gi by blast
qed

lemma smooth_loop_chain_free:
  assumes "chain_free g path"
  shows "\<exists>s. smooth_loop g path i sm = Some s"
proof -
  from greedy_chain_exists[OF assms, of i] obtain js where "greedy_chain g path i js" by blast
  then have "smooth_loop g path i sm = Some (sm @ map ((!) path) js)"
    by (rule smooth_loop_greedy_chain)
  then show ?thesis by blast
qed

text \<open>
  Claim C1, as stated, fails.  In the run above, round 3 inserts node 4 at \<open>(64, 50)\<close> and
  rewires node 2 to it, which lowers the cost of node 2 from 64 to 36.  Node 3 is a child of
  node 2 and keeps its cost of 100, while the cost of its parent plus the distance to it is
  now 72.  This is so after round 3 and still so in the tree the loop ends with.
\<close>

theorem stale_cost_after_rewire:
  "plan (grid5 (0, 0) (2, 0) {}) detour_rnd = Some (detour_final, 6, 5)
   \<and> rrt_loop (grid5 (0, 0) (2, 0) {}) detour_rnd 4 0 (init_tree (grid5 (0, 0) (2, 0) {}))
        = Some (detour_tree4, - 1, 4)
   \<and> detour_tree4 ! 3 = detour_final ! 3 \<and> detour_tree4 ! 2 = detour_final ! 2
   \<and> parent (detour_final ! 3) = 2
   \<and> cost (detour_final ! 3) = 100
   \<and> cost (detour_final ! 2) + dist_pt (point (detour_final ! 3)) (point (detour_final ! 2)) = 72
   \<and> \<not> cost_eq detour_final 3"
proof -
  have s: "sqrt 1296 = 36" by (rule sqrt_sq) simp_all
  have "detour_tree4 ! 3 = detour_final ! 3 \<and> detour_tree4 ! 2 = detour_final ! 2
   \<and> parent (detour_final ! 3) = 2
   \<and> cost (detour_final ! 3) = 100
   \<and> cost (detour_final ! 2) + dist_pt (point (detour_final ! 3)) (point (detour_final ! 2)) = 72
   \<and> \<not> cost_eq detour_final 3"
    by (simp add: detour_final_def detour_tree4_def cost_eq_def dist_pt_pair s)
  then show ?thesis using detour_outcome detour_state4 by simp
qed

text \<open>
  Claim C1, as the code has it.  After any number \<open>m\<close> of rounds, the stored cost of every
  node but the root is at least the stored cost of its current parent plus the distance between
  the two.  With equality: for the node that round \<open>m\<close> creates and for every node that round
  \<open>m\<close> rewires, at the end of that round.  (The costs of the descendants of a rewired node are
  not updated.)
\<close>

theorem cost_invariant:
  assumes "rrt_loop g rnd m 0 (init_tree g) = Some (tree, goalIdx, n)"
  shows "(\<forall>j. 0 < j \<and> j < length tree \<longrightarrow> cost_ge tree j)
     \<and> (\<forall>r j. goalIdx = - 1 \<and> iteration g rnd m tree = Some r \<and> j < length (tree_of r)
            \<and> (length tree \<le> j \<or> parent (tree_of r ! j) \<noteq> parent (tree ! j))
          \<longrightarrow> cost_eq (tree_of r) j)"
proof -
  have inv: "tree_inv g tree" using assms by (rule rrt_loop_inv)
  have "cost_eq (tree_of r) j"
    if r: "iteration g rnd m tree = Some r" and j: "j < length (tree_of r)"
      and ch: "length tree \<le> j \<or> parent (tree_of r ! j) \<noteq> parent (tree ! j)" for r j
    using r
  proof (cases rule: iteration_cases)
    case skip
    then show ?thesis using j ch by simp
  next
    case (insert k newPt bp bc)
    have pok: "parent_ok g tree newPt (bp, bc)"
      unfolding insert(4) by (rule choose_parent_from_ok) (rule insert(3))
    have t: "tree_of r = grow g tree newPt bp bc" using insert(5) by simp
    show ?thesis
      unfolding t using inv pok j[unfolded t] ch[unfolded t] by (rule grow_cost_eq)
  qed
  then show ?thesis using inv by (auto simp: tree_inv_def)
qed

theorem cost_invariant_witness:
  "cost_ge detour_tree3 1 \<and> cost_ge detour_tree3 2 \<and> cost_ge detour_tree3 3
   \<and> cost_eq detour_tree4 4 \<and> cost_eq detour_tree4 2"
proof -
  note ci = cost_invariant[OF detour_state3]
  have l3: "length detour_tree3 = 4" and l4: "length detour_tree4 = 5"
    by (simp_all add: detour_tree3_def detour_tree4_def)
  have p: "parent (detour_tree4 ! 2) \<noteq> parent (detour_tree3 ! 2)"
    by (simp add: detour_tree3_def detour_tree4_def)
  from ci have a: "\<And>j. 0 < j \<Longrightarrow> j < length detour_tree3 \<Longrightarrow> cost_ge detour_tree3 j" by blast
  from ci have b: "\<And>j. j < length detour_tree4 \<Longrightarrow>
      length detour_tree3 \<le> j \<or> parent (detour_tree4 ! j) \<noteq> parent (detour_tree3 ! j) \<Longrightarrow>
      cost_eq detour_tree4 j"
    using detour_step3 by (metis tree_of.simps(1))
  have "cost_ge detour_tree3 1" "cost_ge detour_tree3 2" "cost_ge detour_tree3 3"
    by (rule a; simp add: l3)+
  moreover have "cost_eq detour_tree4 4" by (rule b) (simp_all add: l3 l4)
  moreover have "cost_eq detour_tree4 2" by (rule b) (simp_all add: l3 l4 p)
  ultimately show ?thesis by simp
qed

text \<open>
  Claim C2.  After any number \<open>m\<close> of rounds, the walk along the parent references from any
  node of the tree arrives at the sentinel \<open>-1\<close> after visiting at most as many nodes as the
  tree has, and the walk of \<^verbatim>\<open>smoothPath\<close> returns.  A round changes the parent of an existing
  node only to the node it has just inserted, and only with a strictly smaller cost.
\<close>

theorem parent_walk_reaches_root:
  assumes "rrt_loop g rnd m 0 (init_tree g) = Some (tree, goalIdx, n)"
  shows "(\<forall>j. j < length tree \<longrightarrow>
            walk_bounded tree (length tree) (int j)
            \<and> (\<exists>path. walk_parents tree (int j) [] = Some path))
     \<and> (\<forall>r j. goalIdx = - 1 \<and> iteration g rnd m tree = Some r \<and> j < length tree
            \<and> parent (tree_of r ! j) \<noteq> parent (tree ! j)
          \<longrightarrow> parent (tree_of r ! j) = int (length tree)
              \<and> cost (tree_of r ! j) < cost (tree ! j))"
proof -
  have inv: "tree_inv g tree" using assms by (rule rrt_loop_inv)
  have "walk_bounded tree (length tree) (int j) \<and> (\<exists>path. walk_parents tree (int j) [] = Some path)"
    if "j < length tree" for j
    using tree_inv_walk[OF inv that] tree_inv_raw_path[OF inv that] by blast
  then show ?thesis using iteration_reparent[OF inv] by blast
qed

theorem parent_walk_reaches_root_witness:
  "walk_bounded detour_tree4 (length detour_tree4) 2
   \<and> (\<exists>path. walk_parents detour_tree4 2 [] = Some path)
   \<and> parent (detour_tree4 ! 2) = 4
   \<and> cost (detour_tree4 ! 2) < cost (detour_tree3 ! 2)"
proof -
  have l3: "length detour_tree3 = 4" and l4: "length detour_tree4 = 5"
    by (simp_all add: detour_tree3_def detour_tree4_def)
  have p: "parent (detour_tree4 ! 2) \<noteq> parent (detour_tree3 ! 2)"
    by (simp add: detour_tree3_def detour_tree4_def)
  from parent_walk_reaches_root[OF detour_state4]
  have "(2::nat) < length detour_tree4 \<longrightarrow>
            walk_bounded detour_tree4 (length detour_tree4) (int 2)
            \<and> (\<exists>path. walk_parents detour_tree4 (int 2) [] = Some path)" by blast
  then have a: "walk_bounded detour_tree4 (length detour_tree4) 2
            \<and> (\<exists>path. walk_parents detour_tree4 2 [] = Some path)"
    using l4 by simp
  from parent_walk_reaches_root[OF detour_state3]
  have "(- 1::int) = - 1 \<and> iteration (grid5 (0, 0) (2, 0) {}) detour_rnd 3 detour_tree3 = Some (Continue detour_tree4)
          \<and> (2::nat) < length detour_tree3
          \<and> parent (tree_of (Continue detour_tree4) ! 2) \<noteq> parent (detour_tree3 ! 2)
        \<longrightarrow> parent (tree_of (Continue detour_tree4) ! 2) = int (length detour_tree3)
            \<and> cost (tree_of (Continue detour_tree4) ! 2) < cost (detour_tree3 ! 2)" by blast
  then have b: "parent (detour_tree4 ! 2) = 4 \<and> cost (detour_tree4 ! 2) < cost (detour_tree3 ! 2)"
    using detour_step3 l3 p by simp
  from a b show ?thesis by simp
qed



text \<open>
  Claim C6.  When the planning loop has found a path, the walk from \<open>goalIdx\<close> returns a raw
  path that is not empty, and \<^verbatim>\<open>smoothPath\<close> returns a path that starts at the first point of
  the raw path, ends at its last point, has at most as many waypoints, and whose consecutive
  waypoints are joined by segments that pass \<open>collisionFree\<close>.
\<close>

theorem smoothPath_properties:
  assumes "plan g rnd = Some (tree, goalIdx, n)" and "goalIdx \<noteq> - 1"
  shows "\<exists>raw s. walk_parents tree goalIdx [] = Some (rev raw) \<and> raw \<noteq> []
           \<and> smoothPath g tree goalIdx = Some s
           \<and> hd s = hd raw \<and> last s = last raw \<and> length s \<le> length raw \<and> chain_free g s"
proof -
  from plan_raw_path[OF assms] obtain raw where
    raw: "walk_parents tree goalIdx [] = Some (rev raw)" "raw \<noteq> []" "chain_free g raw" by blast
  from shortcut_chain_free[OF raw(2,3)] obtain s where
    s: "shortcut g raw = Some s" "hd s = hd raw" "last s = last raw" "length s \<le> length raw"
      "chain_free g s" by blast
  have "smoothPath g tree goalIdx = Some s" using raw(1) s(1) by (simp add: smoothPath_def)
  then show ?thesis using raw s by blast
qed

theorem smoothPath_properties_witness:
  "plan (grid5 (0, 0) (2, 0) {}) detour_rnd = Some (detour_final, 6, 5)
   \<and> smoothPath (grid5 (0, 0) (2, 0) {}) detour_final 6 = Some [(50, 50), (200, 50)]
   \<and> (\<exists>raw s. walk_parents detour_final 6 [] = Some (rev raw) \<and> raw \<noteq> []
           \<and> smoothPath (grid5 (0, 0) (2, 0) {}) detour_final 6 = Some s
           \<and> hd s = hd raw \<and> last s = last raw \<and> length s \<le> length raw
           \<and> chain_free (grid5 (0, 0) (2, 0) {}) s)"
proof -
  have "(6::int) \<noteq> - 1" by simp
  from smoothPath_properties[OF detour_outcome this] show ?thesis
    using detour_outcome detour_smoothPath by simp
qed

text \<open>
  Claim C7.  When the planning loop has found a path, shortcutting the path that
  \<^verbatim>\<open>smoothPath\<close> returns gives the same path again.
\<close>

theorem smoothPath_idempotent:
  assumes "plan g rnd = Some (tree, goalIdx, n)" and "goalIdx \<noteq> - 1"
  shows "\<exists>raw s. walk_parents tree goalIdx [] = Some (rev raw)
           \<and> shortcut g raw = Some s \<and> smoothPath g tree goalIdx = Some s
           \<and> shortcut g s = Some s"
proof -
  from plan_raw_path[OF assms] obtain raw where
    raw: "walk_parents tree goalIdx [] = Some (rev raw)" "raw \<noteq> []" "chain_free g raw" by blast
  from shortcut_chain_free[OF raw(2,3)] obtain s where
    s: "shortcut g raw = Some s" "shortcut g s = Some s" by blast
  have "smoothPath g tree goalIdx = Some s" using raw(1) s(1) by (simp add: smoothPath_def)
  then show ?thesis using raw s by blast
qed

theorem smoothPath_idempotent_witness:
  "shortcut (grid5 (0, 0) (2, 0) {}) [(50, 50), (100, 50), (150, 50), (200, 50)]
     = Some [(50, 50), (200, 50)]
   \<and> (\<exists>raw s. walk_parents detour_final 6 [] = Some (rev raw)
           \<and> shortcut (grid5 (0, 0) (2, 0) {}) raw = Some s
           \<and> smoothPath (grid5 (0, 0) (2, 0) {}) detour_final 6 = Some s
           \<and> shortcut (grid5 (0, 0) (2, 0) {}) s = Some s)"
proof -
  have "(6::int) \<noteq> - 1" by simp
  from smoothPath_idempotent[OF detour_outcome this] show ?thesis
    using detour_smoothed by simp
qed

text \<open>
  Claim C10.  At an anchor \<open>i\<close> before the last index, the inner scan ends at an index larger
  than \<open>i\<close> exactly when a later waypoint is joined to waypoint \<open>i\<close> by a segment that passes
  \<open>collisionFree\<close>, and at \<open>i\<close> itself otherwise; the loop goes on from the index where the scan
  ended.  On a path whose consecutive waypoints all pass \<open>collisionFree\<close> the anchor grows and
  the loop returns.  At an anchor from which no later waypoint passes, the scan ends at the
  anchor and the loop does not return.
\<close>

theorem smooth_loop_progress:
  assumes "i < length path - 1"
  shows "(i < scan_back g path i (length path - 1)
            \<longleftrightarrow> (\<exists>j. i < j \<and> j < length path \<and> collisionFree g (path ! i) (path ! j)))
     \<and> (i < scan_back g path i (length path - 1) \<or> scan_back g path i (length path - 1) = i)
     \<and> smooth_loop g path i smoothed
          = smooth_loop g path (scan_back g path i (length path - 1))
              (smoothed @ [path ! scan_back g path i (length path - 1)])
     \<and> (chain_free g path \<longrightarrow>
           i < scan_back g path i (length path - 1)
           \<and> (\<exists>s. smooth_loop g path i smoothed = Some s))
     \<and> ((\<forall>j. i < j \<and> j < length path \<longrightarrow> \<not> collisionFree g (path ! i) (path ! j)) \<longrightarrow>
           scan_back g path i (length path - 1) = i
           \<and> smooth_loop g path i smoothed = None)"
proof -
  let ?m = "length path - 1"
  have le: "i \<le> ?m" using assms by simp
  have lt: "j \<le> ?m \<longleftrightarrow> j < length path" for j using assms by auto
  have a: "i < scan_back g path i ?m
            \<longleftrightarrow> (\<exists>j. i < j \<and> j < length path \<and> collisionFree g (path ! i) (path ! j))"
    unfolding scan_back_gt_iff[OF le, of g path] using lt by blast
  have b: "i < scan_back g path i ?m \<or> scan_back g path i ?m = i"
    using scan_back_spec[OF le, of g path] by linarith
  have c: "smooth_loop g path i smoothed
          = smooth_loop g path (scan_back g path i ?m) (smoothed @ [path ! scan_back g path i ?m])"
    using assms by (subst smooth_loop.simps) (simp add: Let_def)
  have d: "i < scan_back g path i ?m \<and> (\<exists>s. smooth_loop g path i smoothed = Some s)"
    if "chain_free g path"
    using chain_free_scan_back[OF that assms] smooth_loop_chain_free[OF that] by blast
  have e: "scan_back g path i ?m = i \<and> smooth_loop g path i smoothed = None"
    if "\<forall>j. i < j \<and> j < length path \<longrightarrow> \<not> collisionFree g (path ! i) (path ! j)"
  proof -
    have "scan_back g path i ?m = i" using a b that by blast
    then show ?thesis using smooth_loop_stuck[OF assms] by simp
  qed
  show ?thesis using a b c d e by blast
qed

theorem smooth_loop_progress_witness:
  "(\<exists>s. smooth_loop (grid5 (1, 0) (4, 0) {(0, 0)}) [(99, 50), (199, 50)] 0 [(99, 50)] = Some s)
   \<and> scan_back (grid5 (1, 0) (4, 0) {(0, 0)}) [(99, 50), (199, 50)] 0 1 = 1
   \<and> scan_back (grid5 (1, 0) (4, 0) {(0, 0)}) [(199, 50), (99, 50)] 0 1 = 0
   \<and> smooth_loop (grid5 (1, 0) (4, 0) {(0, 0)}) [(199, 50), (99, 50)] 0 [(199, 50)] = None"
proof -
  let ?g = "grid5 (1, 0) (4, 0) {(0, 0)}"
  let ?fw = "[(99, 50), (199, 50)] :: point2f list"
  let ?bw = "[(199, 50), (99, 50)] :: point2f list"
  have i: "0 < length ?fw - 1" "0 < length ?bw - 1" by simp_all
  have cf: "chain_free ?g ?fw" using corner_obstacle_forward by (simp add: chain_free_pair)
  have no: "\<forall>j. 0 < j \<and> j < length ?bw \<longrightarrow> \<not> collisionFree ?g (?bw ! 0) (?bw ! j)"
    using corner_obstacle_backward by (auto simp: less_Suc_eq)
  from smooth_loop_progress[OF i(1), of ?g "[(99, 50)]"] cf
  have "0 < scan_back ?g ?fw 0 (length ?fw - 1)
      \<and> (\<exists>s. smooth_loop ?g ?fw 0 [(99, 50)] = Some s)" by blast
  moreover have "scan_back ?g ?fw 0 (length ?fw - 1) \<le> length ?fw - 1"
    using scan_back_spec[of 0 "length ?fw - 1" ?g ?fw] by simp
  moreover from smooth_loop_progress[OF i(2), of ?g "[(199, 50)]"] no
  have "scan_back ?g ?bw 0 (length ?bw - 1) = 0 \<and> smooth_loop ?g ?bw 0 [(199, 50)] = None"
    by blast
  ultimately show ?thesis by simp
qed

end
